theory Spec2Isabelle
  imports Main
begin

section \<open>The download handler of the event-registration backend\<close>

text \<open>
  A shallow embedding of \<^verbatim>\<open>middleware/download.js\<close>. JavaScript strings are
  modelled as \<^typ>\<open>string\<close> (ASCII text); a value that may be \<^verbatim>\<open>undefined\<close>
  or \<^verbatim>\<open>null\<close> is an \<^typ>\<open>'a option\<close>. An exception is a value: the one
  \<^verbatim>\<open>try\<close> of the handler catches them all and answers with status 500. The two
  stores and the spreadsheet library are collaborators: the registrations found, the
  lock records and the library's output are arguments of the model.
\<close>

subsection \<open>String primitives used by the handler\<close>

definition nl :: string where
  "nl = [CHR 0x0A]"

text \<open>\<^verbatim>\<open>String.prototype.toLowerCase\<close> and \<^verbatim>\<open>toUpperCase\<close> on ASCII text.\<close>

definition toLowerChar :: "char \<Rightarrow> char" where
  "toLowerChar c =
     (let n = (of_char c :: nat) in if 65 \<le> n \<and> n \<le> 90 then char_of (n + 32) else c)"

definition toUpperChar :: "char \<Rightarrow> char" where
  "toUpperChar c =
     (let n = (of_char c :: nat) in if 97 \<le> n \<and> n \<le> 122 then char_of (n - 32) else c)"

definition toLowerCase :: "string \<Rightarrow> string" where
  "toLowerCase s = map toLowerChar s"

definition toUpperCase :: "string \<Rightarrow> string" where
  "toUpperCase s = map toUpperChar s"

text \<open>\<^verbatim>\<open>s.substring(0, 2)\<close>.\<close>

definition substring02 :: "string \<Rightarrow> string" where
  "substring02 s = take 2 s"

text \<open>The class \<^verbatim>\<open>\d\<close>, and \<^verbatim>\<open>s.replace(/\D/g, '')\<close>, which keeps the digits.\<close>

definition isDigit :: "char \<Rightarrow> bool" where
  "isDigit c = (let n = (of_char c :: nat) in 48 \<le> n \<and> n \<le> 57)"

definition stripNonDigits :: "string \<Rightarrow> string" where
  "stripNonDigits s = filter isDigit s"

text \<open>\<^verbatim>\<open>s.slice(-8)\<close>: the last eight characters, or all of a shorter string.\<close>

definition sliceLast8 :: "string \<Rightarrow> string" where
  "sliceLast8 s = drop (length s - 8) s"

text \<open>The decimal numeral a template literal prints for a non-negative integer.\<close>

definition digitChar :: "nat \<Rightarrow> char" where
  "digitChar d = char_of (48 + d)"

fun showNat :: "nat \<Rightarrow> string" where
  "showNat n = (if n < 10 then [digitChar n] else showNat (n div 10) @ [digitChar (n mod 10)])"

declare showNat.simps [simp del]

text \<open>JavaScript truthiness of a value that is a string, \<^verbatim>\<open>undefined\<close> or \<^verbatim>\<open>null\<close>.\<close>

definition truthy :: "string option \<Rightarrow> bool" where
  "truthy v = (case v of None \<Rightarrow> False | Some s \<Rightarrow> s \<noteq> [])"

subsection \<open>Contact cards\<close>

text \<open>
  \<^verbatim>\<open>generateVCard(name, phone, filename)\<close>, lines 7 to 15: a template literal of six
  lines, each ended by a line feed.
\<close>

definition generateVCard :: "string \<Rightarrow> string \<Rightarrow> string \<Rightarrow> string" where
  "generateVCard name phone filename =
     ''BEGIN:VCARD'' @ nl @
     ''VERSION:3.0'' @ nl @
     ''FN:'' @ filename @ nl @
     ''N:;'' @ filename @ '';;;'' @ nl @
     ''TEL;TYPE=CELL:'' @ phone @ nl @
     ''END:VCARD'' @ nl"

subsection \<open>Registrations\<close>

text \<open>
  Modelled from the spec: the schema of \<^verbatim>\<open>models/registerModel\<close>, which the source
  requires but does not hold. A registration is a document that
  \<^verbatim>\<open>registerModel.find(...).lean()\<close> returns, with the fields the handler reads. The
  fields of a team member may be absent or blank, and so may the member array itself:
  the handler guards each of them. Timestamps are natural numbers.
\<close>

record member =
  memName :: "string option"
  memRoll :: "string option"
  memPhone :: "string option"

record registration =
  teamName :: string
  capName :: string
  capPhone :: string
  capRoll :: string
  participantType :: string
  createdAt :: nat
  teamMembers :: "member list option"

text \<open>Lines 169 to 176: the identifier of a registration's cards.\<close>

definition uniqueId :: "string \<Rightarrow> registration \<Rightarrow> string" where
  "uniqueId eventName reg =
     (let prefix = toLowerCase (substring02 eventName) in
      if participantType reg = ''INTERNAL'' then prefix @ capRoll reg
      else (let phoneSuffix = sliceLast8 (stripNonDigits (capPhone reg))
            in prefix @ ''EXT'' @ phoneSuffix))"

text \<open>
  Line 179: \<^verbatim>\<open>reg.teamMembers && reg.teamMembers[0] && reg.teamMembers[0].memPhone\<close>.
  The result is the first member when the whole condition is truthy.
\<close>

definition firstMemberWithPhone :: "registration \<Rightarrow> member option" where
  "firstMemberWithPhone reg =
     (case teamMembers reg of
        None \<Rightarrow> None
      | Some [] \<Rightarrow> None
      | Some (m # ms) \<Rightarrow> if truthy (memPhone m) then Some m else None)"

text \<open>
  A string in a template literal or passed where text is expected: \<^verbatim>\<open>undefined\<close>
  prints as such.
\<close>

definition jsString :: "string option \<Rightarrow> string" where
  "jsString v = (case v of None \<Rightarrow> ''undefined'' | Some s \<Rightarrow> s)"

text \<open>
  Lines 168 to 186, the body of the loop for one registration: the cards it appends to
  \<^verbatim>\<open>vCardContent\<close>, in order.
\<close>

definition regCards :: "string \<Rightarrow> registration \<Rightarrow> string list" where
  "regCards eventName reg =
     (let uid = uniqueId eventName reg in
      generateVCard (capName reg) (capPhone reg) (uid @ ''-1'') #
      (case firstMemberWithPhone reg of
         None \<Rightarrow> []
       | Some m \<Rightarrow> [generateVCard (jsString (memName m)) (jsString (memPhone m)) (uid @ ''-2'')]))"

text \<open>The loop itself: \<^verbatim>\<open>vCardContent += ...\<close> for each registration.\<close>

definition vCardStep :: "string \<Rightarrow> string \<Rightarrow> registration \<Rightarrow> string" where
  "vCardStep eventName vCardContent reg = vCardContent @ concat (regCards eventName reg)"

definition generateCards :: "string \<Rightarrow> registration list \<Rightarrow> string" where
  "generateCards eventName registrations = foldl (vCardStep eventName) [] registrations"

subsection \<open>The spreadsheet\<close>

text \<open>
  What the handler hands to the spreadsheet library: the column definitions, one row
  object per registration, and the bold header. A row object maps a column key to the
  text of its cell; a key it does not hold has no value, and its cell stays blank.
\<close>

record column =
  header :: string
  key :: string
  width :: nat

type_synonym rowData = "string \<rightharpoonup> string"

record worksheet =
  columns :: "column list"
  rows :: "rowData list"
  headerBold :: bool

text \<open>Lines 97 to 102.\<close>

definition maxStep :: "nat \<Rightarrow> registration \<Rightarrow> nat" where
  "maxStep maxTeamMembers reg =
     (case teamMembers reg of
        None \<Rightarrow> maxTeamMembers
      | Some ms \<Rightarrow> if length ms > maxTeamMembers then length ms else maxTeamMembers)"

definition maxTeamMembers :: "registration list \<Rightarrow> nat" where
  "maxTeamMembers registrations = foldl maxStep 0 registrations"

text \<open>Lines 104 to 117.\<close>

definition fixedColumns :: "column list" where
  "fixedColumns =
     [\<lparr>header = ''Team Name'', key = ''teamName'', width = 25\<rparr>,
      \<lparr>header = ''Captain Name'', key = ''capName'', width = 20\<rparr>,
      \<lparr>header = ''Captain Phone'', key = ''capPhone'', width = 15\<rparr>,
      \<lparr>header = ''Captain Roll'', key = ''capRoll'', width = 15\<rparr>,
      \<lparr>header = ''Type'', key = ''type'', width = 10\<rparr>,
      \<lparr>header = ''Registered At'', key = ''regAt'', width = 20\<rparr>]"

definition memberColumns :: "nat \<Rightarrow> column list" where
  "memberColumns i =
     [\<lparr>header = ''Mem '' @ showNat i @ '' Name'', key = ''m'' @ showNat i @ ''Name'', width = 20\<rparr>,
      \<lparr>header = ''Mem '' @ showNat i @ '' Roll'', key = ''m'' @ showNat i @ ''Roll'', width = 15\<rparr>,
      \<lparr>header = ''Mem '' @ showNat i @ '' Phone'', key = ''m'' @ showNat i @ ''Phone'', width = 15\<rparr>]"

definition buildColumns :: "nat \<Rightarrow> column list" where
  "buildColumns n = foldl (\<lambda>cols i. cols @ memberColumns i) fixedColumns [1..<Suc n]"

text \<open>Lines 121 to 140. \<^verbatim>\<open>v || '-'\<close> is the dash for an absent or empty text.\<close>

definition orDash :: "string option \<Rightarrow> string" where
  "orDash v = (case v of None \<Rightarrow> ''-'' | Some s \<Rightarrow> if s = [] then ''-'' else s)"

definition captainCells :: "(nat \<Rightarrow> string) \<Rightarrow> registration \<Rightarrow> rowData" where
  "captainCells toLocaleString reg =
     [''teamName'' \<mapsto> teamName reg,
      ''capName'' \<mapsto> capName reg,
      ''capPhone'' \<mapsto> capPhone reg,
      ''capRoll'' \<mapsto> (if participantType reg = ''INTERNAL'' then capRoll reg else ''EXTERNAL''),
      ''type'' \<mapsto> participantType reg,
      ''regAt'' \<mapsto> toLocaleString (createdAt reg)]"

definition memberCells :: "rowData \<Rightarrow> nat \<times> member \<Rightarrow> rowData" where
  "memberCells rowData im =
     (let i = fst im + 1; m = snd im in
      rowData(''m'' @ showNat i @ ''Name'' \<mapsto> orDash (memName m),
              ''m'' @ showNat i @ ''Roll'' \<mapsto> orDash (memRoll m),
              ''m'' @ showNat i @ ''Phone'' \<mapsto> orDash (memPhone m)))"

definition buildRow :: "(nat \<Rightarrow> string) \<Rightarrow> registration \<Rightarrow> rowData" where
  "buildRow toLocaleString reg =
     (case teamMembers reg of
        None \<Rightarrow> captainCells toLocaleString reg
      | Some ms \<Rightarrow> foldl memberCells (captainCells toLocaleString reg) (enumerate 0 ms))"

definition buildWorksheet :: "(nat \<Rightarrow> string) \<Rightarrow> registration list \<Rightarrow> worksheet" where
  "buildWorksheet toLocaleString registrations =
     \<lparr>columns = buildColumns (maxTeamMembers registrations),
      rows = map (buildRow toLocaleString) registrations,
      headerBold = True\<rparr>"

text \<open>The number of team members a registration has: none when the array is absent.\<close>

definition memberCount :: "registration \<Rightarrow> nat" where
  "memberCount reg = (case teamMembers reg of None \<Rightarrow> 0 | Some ms \<Rightarrow> length ms)"

subsection \<open>The lock records\<close>

text \<open>
  Modelled from the spec: the schema of \<^verbatim>\<open>models/coordsLogModel\<close>, which the source
  requires but does not hold. There is one lock record per event, with the event name as
  its unique key, so the collection is a map from event names to records. A new record
  starts with \<open>vCardsDownloaded = false\<close> and no downloader name or time.
\<close>

record lock =
  vCardsDownloaded :: bool
  firstDownloaderName :: "string option"
  downloadTime :: "nat option"

type_synonym logStore = "string \<rightharpoonup> lock"

definition newLock :: lock where
  "newLock = \<lparr>vCardsDownloaded = False, firstDownloaderName = None, downloadTime = None\<rparr>"

text \<open>\<^verbatim>\<open>CoordinatorLog.findOne({ eventName })\<close>.\<close>

definition findOne :: "logStore \<Rightarrow> string \<Rightarrow> lock option" where
  "findOne store ev = store ev"

text \<open>
  \<^verbatim>\<open>CoordinatorLog.create({ eventName })\<close>: the new record and the new store, or the
  duplicate-key error when the event already has a record.
\<close>

datatype dbError = DuplicateKey

definition create :: "logStore \<Rightarrow> string \<Rightarrow> dbError + lock \<times> logStore" where
  "create store ev =
     (case store ev of
        None \<Rightarrow> Inr (newLock, store(ev \<mapsto> newLock))
      | Some l \<Rightarrow> Inl DuplicateKey)"

text \<open>
  Lines 72 to 82, one atomic operation of the database: the record of the event is
  updated if it has \<open>vCardsDownloaded = false\<close>, and the updated record is returned
  (\<^verbatim>\<open>new: true\<close>); otherwise nothing is written and the result is \<^verbatim>\<open>null\<close>.
\<close>

definition findOneAndUpdate ::
    "logStore \<Rightarrow> string \<Rightarrow> string \<Rightarrow> nat \<Rightarrow> lock option \<times> logStore" where
  "findOneAndUpdate store ev coordinator now =
     (case store ev of
        None \<Rightarrow> (None, store)
      | Some l \<Rightarrow>
          if vCardsDownloaded l = False then
            (let l' = l\<lparr>vCardsDownloaded := True,
                         firstDownloaderName := Some coordinator,
                         downloadTime := Some now\<rparr>
             in (Some l', store(ev \<mapsto> l')))
          else (None, store))"

subsection \<open>Requests, configuration and responses\<close>

text \<open>
  The request body, line 19. The event name and the coordinator name are strings, as
  the interface has them; the passkey and \<open>coordsValue\<close> are \<open>None\<close> when the
  body lacks them or holds something that is not a string. \<open>now\<close> is what
  \<^verbatim>\<open>new Date()\<close> reads when the request attempts the claim (line 78).
\<close>

record request =
  eventName :: string
  coordsValue :: "string option"
  coordinatorName :: string
  passkey :: "string option"
  now :: nat

text \<open>\<^verbatim>\<open>process.env\<close>.\<close>

type_synonym env = "string \<rightharpoonup> string"

text \<open>
  The collaborators the handler calls and this file does not define: the locale's date
  format and the spreadsheet library's serialisation, base64 encoded.
\<close>

record ext =
  localeString :: "nat \<Rightarrow> string"
  xlsxBase64 :: "worksheet \<Rightarrow> string"

datatype body =
    Error string
  | Info bool string
  | Payload bool string string "string option"

type_synonym response = "nat \<times> body"

text \<open>The database operations a request performs, in order.\<close>

datatype dbOp =
    RegFind string
  | LogFindOne string
  | LogCreate string
  | LogFindOneAndUpdate string

subsection \<open>Step 1: the role of the caller\<close>

text \<open>Lines 23 and 24: \<^verbatim>\<open>masterKey && passkey === masterKey\<close>.\<close>

definition isAdmin :: "env \<Rightarrow> request \<Rightarrow> bool" where
  "isAdmin env req =
     (let masterKey = env ''PASSKEY_MASTER'' in
      truthy masterKey \<and> passkey req = masterKey)"

datatype role = Admin | Coordinator | Denied | TypeError

text \<open>
  Lines 27 to 32. \<^verbatim>\<open>coordsValue.toUpperCase()\<close> throws when \<open>coordsValue\<close> is not
  a string; the handler's \<^verbatim>\<open>catch\<close> turns that into the 500 response.
\<close>

definition authorize :: "env \<Rightarrow> request \<Rightarrow> role" where
  "authorize env req =
     (if isAdmin env req then Admin
      else (case coordsValue req of
              None \<Rightarrow> TypeError
            | Some cv \<Rightarrow>
                (let envKey = ''PASSKEY_'' @ toUpperCase cv in
                 if \<not> truthy (env envKey) \<or> env envKey \<noteq> passkey req then Denied
                 else Coordinator)))"

subsection \<open>Steps 2 and 3: the lock\<close>

text \<open>
  Lines 48 to 56. The result is \<open>existingLog\<close>, the store and the operations done.
\<close>

definition ensureLog :: "logStore \<Rightarrow> string \<Rightarrow> lock option \<times> logStore \<times> dbOp list" where
  "ensureLog store ev =
     (case findOne store ev of
        Some l \<Rightarrow> (Some l, store, [LogFindOne ev])
      | None \<Rightarrow>
          (case create store ev of
             Inr (l, store') \<Rightarrow> (Some l, store', [LogFindOne ev, LogCreate ev])
           | Inl e \<Rightarrow> (findOne store ev, store, [LogFindOne ev, LogCreate ev, LogFindOne ev])))"

text \<open>
  Lines 59 to 91. The result is \<open>isFirstDownload\<close>, \<open>logDetails\<close>, the store and
  the operations done.
\<close>

definition resolveLock ::
    "bool \<Rightarrow> logStore \<Rightarrow> request \<Rightarrow> bool \<times> lock option \<times> logStore \<times> dbOp list" where
  "resolveLock admin store req =
     (let ev = eventName req in
      if admin then (False, findOne store ev, store, [LogFindOne ev])
      else (case findOneAndUpdate store ev (coordinatorName req) (now req) of
              (Some lockResult, store') \<Rightarrow>
                (True, Some lockResult, store', [LogFindOneAndUpdate ev])
            | (None, store') \<Rightarrow>
                (False, findOne store' ev, store', [LogFindOneAndUpdate ev, LogFindOne ev])))"

subsection \<open>Step 5: message and response\<close>

definition alertMark :: string where
  "alertMark = map char_of [0xC3, 0xA2, 0xC5, 0xA1, 0xC2, 0xA0 :: nat]"

text \<open>A nullable field of a record in a template literal, and \<^verbatim>\<open>new Date(t)\<close>.\<close>

definition jsNullable :: "string option \<Rightarrow> string" where
  "jsNullable v = (case v of None \<Rightarrow> ''null'' | Some s \<Rightarrow> s)"

definition timeStr :: "ext \<Rightarrow> lock \<Rightarrow> string" where
  "timeStr x l = localeString x (case downloadTime l of None \<Rightarrow> 0 | Some t \<Rightarrow> t)"

text \<open>
  Lines 147 to 192: the message and \<open>vCardContent\<close>; \<open>None\<close> is the
  \<^verbatim>\<open>TypeError\<close> of reading a field of a \<open>logDetails\<close> that is \<^verbatim>\<open>null\<close>.
\<close>

definition cardsAndMessage ::
    "ext \<Rightarrow> bool \<Rightarrow> bool \<Rightarrow> lock option \<Rightarrow> string \<Rightarrow> registration list
      \<Rightarrow> (string \<times> string) option" where
  "cardsAndMessage x admin isFirstDownload logDetails ev registrations =
     (if admin \<or> isFirstDownload then
        (let message =
           (if admin then
              (case logDetails of
                 None \<Rightarrow> None
               | Some l \<Rightarrow>
                   if vCardsDownloaded l then
                     Some (''ADMIN MODE: Retrieved all data. (Note: Originally downloaded by ''
                           @ jsNullable (firstDownloaderName l) @ '' at '' @ timeStr x l @ '')'')
                   else
                     Some ''ADMIN MODE: Retrieved all data. (Status: Not yet downloaded by any coordinator)'')
            else Some ''You are the first coordinator, You can download both Contacts and the Excel Sheet'')
         in (case message of
               None \<Rightarrow> None
             | Some msg \<Rightarrow> Some (generateCards ev registrations, msg)))
      else
        (case logDetails of
           None \<Rightarrow> None
         | Some l \<Rightarrow>
             Some ([], alertMark @ '' Alert : Contacts were ALREADY downloaded by *''
                       @ jsNullable (firstDownloaderName l) @ ''*, At '' @ timeStr x l @ ''.'')))"

definition serverError :: response where
  "serverError = (500, Error ''Server Error processing download'')"

text \<open>Lines 143, 144 and 194 to 199; the \<^verbatim>\<open>catch\<close> of lines 201 to 204.\<close>

definition respond ::
    "ext \<Rightarrow> bool \<Rightarrow> bool \<Rightarrow> lock option \<Rightarrow> string \<Rightarrow> registration list \<Rightarrow> response" where
  "respond x admin isFirstDownload logDetails ev registrations =
     (let base64Excel = xlsxBase64 x (buildWorksheet (localeString x) registrations)
      in case cardsAndMessage x admin isFirstDownload logDetails ev registrations of
           None \<Rightarrow> serverError
         | Some (vCardContent, message) \<Rightarrow>
             (200, Payload True message base64Excel
                     (if admin \<or> isFirstDownload then Some vCardContent else None)))"

subsection \<open>The handler\<close>

text \<open>
  \<^verbatim>\<open>handleDownload\<close>, lines 17 to 205, run from its first line to its response with no
  other request in between. Its arguments are the collaborators, the environment, the
  registrations that \<^verbatim>\<open>registerModel.find\<close> returns for the event (newest first), the
  lock records and the request; its result is the response, the lock records afterwards
  and the database operations performed.
\<close>

definition handleDownload ::
    "ext \<Rightarrow> env \<Rightarrow> registration list \<Rightarrow> logStore \<Rightarrow> request
      \<Rightarrow> response \<times> logStore \<times> dbOp list" where
  "handleDownload x env registrations store req =
     (let ev = eventName req in
      case authorize env req of
        TypeError \<Rightarrow> (serverError, store, [])
      | Denied \<Rightarrow> ((401, Error ''Invalid Passkey''), store, [])
      | role \<Rightarrow>
          (let admin = (role = Admin) in
           if registrations = [] then
             ((200, Info False ''No one registered yet!''), store, [RegFind ev])
           else
             (case ensureLog store ev of (existingLog, store1, ops1) \<Rightarrow>
              case resolveLock admin store1 req of (isFirstDownload, logDetails, store2, ops2) \<Rightarrow>
                (respond x admin isFirstDownload logDetails ev registrations,
                 store2, RegFind ev # ops1 @ ops2))))"

subsection \<open>Concurrent requests\<close>

text \<open>
  The handler is an \<^verbatim>\<open>async\<close> function: it runs without interruption between two
  \<^verbatim>\<open>await\<close>s, and each awaited database operation is atomic. A request in progress
  is therefore at one of the handler's \<^verbatim>\<open>await\<close>s, holding the local variables
  that are still read later: whether the caller is admin, and the registrations.
\<close>

datatype outcome =
    Rejected
  | NoRegistrations
  | AdminRead "lock option"
  | ClaimedFirst lock
  | ClaimedLate "lock option"

datatype proc =
    AtStart
  | AtFindLog bool "registration list"
  | AtCreate bool "registration list"
  | AtRefetch bool "registration list"
  | AtResolve bool "registration list"
  | AtLateRead "registration list"
  | Finished outcome response

text \<open>
  One step of a request: the code up to and including its next database operation.
  \<open>found\<close> is what \<^verbatim>\<open>registerModel.find\<close> returns if this step is the one that
  calls it (line 35). The positions are line 19, and the \<^verbatim>\<open>await\<close>s of lines 48,
  51, 54, 68 or 72, and 89.
\<close>

fun pstep ::
    "ext \<Rightarrow> env \<Rightarrow> request \<Rightarrow> registration list \<Rightarrow> logStore \<Rightarrow> proc \<Rightarrow> logStore \<times> proc" where
  "pstep x env req found store AtStart =
     (case authorize env req of
        TypeError \<Rightarrow> (store, Finished Rejected serverError)
      | Denied \<Rightarrow> (store, Finished Rejected (401, Error ''Invalid Passkey''))
      | role \<Rightarrow>
          if found = [] then
            (store, Finished NoRegistrations (200, Info False ''No one registered yet!''))
          else (store, AtFindLog (role = Admin) found))"
| "pstep x env req found store (AtFindLog admin registrations) =
     (case findOne store (eventName req) of
        Some l \<Rightarrow> (store, AtResolve admin registrations)
      | None \<Rightarrow> (store, AtCreate admin registrations))"
| "pstep x env req found store (AtCreate admin registrations) =
     (case create store (eventName req) of
        Inr (l, store') \<Rightarrow> (store', AtResolve admin registrations)
      | Inl e \<Rightarrow> (store, AtRefetch admin registrations))"
| "pstep x env req found store (AtRefetch admin registrations) =
     (case findOne store (eventName req) of
        existingLog \<Rightarrow> (store, AtResolve admin registrations))"
| "pstep x env req found store (AtResolve admin registrations) =
     (let ev = eventName req in
      if admin then
        (let logDetails = findOne store ev
         in (store, Finished (AdminRead logDetails)
                      (respond x True False logDetails ev registrations)))
      else
        (case findOneAndUpdate store ev (coordinatorName req) (now req) of
           (Some lockResult, store') \<Rightarrow>
             (store', Finished (ClaimedFirst lockResult)
                        (respond x False True (Some lockResult) ev registrations))
         | (None, store') \<Rightarrow> (store', AtLateRead registrations)))"
| "pstep x env req found store (AtLateRead registrations) =
     (let ev = eventName req; logDetails = findOne store ev
      in (store, Finished (ClaimedLate logDetails)
                   (respond x False False logDetails ev registrations)))"
| "pstep x env req found store (Finished out resp) = (store, Finished out resp)"

text \<open>
  The system: the lock records and the requests in flight. A step of the system is a
  step of one of its requests; its label names the request that moves and what the
  registration store would return to it. The states the system can reach from given
  lock records and given requests are those any sequence of steps leads to.
\<close>

type_synonym sys = "logStore \<times> (request \<times> proc) list"

inductive sysStep :: "ext \<Rightarrow> env \<Rightarrow> nat \<times> registration list \<Rightarrow> sys \<Rightarrow> sys \<Rightarrow> bool"
  for x :: ext and env :: env where
  step: "i < length ps \<Longrightarrow> ps ! i = (req, p) \<Longrightarrow> pstep x env req found store p = (store', p')
          \<Longrightarrow> sysStep x env (i, found) (store, ps) (store', ps[i := (req, p')])"

code_pred sysStep .

inductive reachable :: "ext \<Rightarrow> env \<Rightarrow> logStore \<Rightarrow> request list \<Rightarrow> sys \<Rightarrow> bool"
  for x :: ext and env :: env and store0 :: logStore and reqs :: "request list" where
  init: "reachable x env store0 reqs (store0, map (\<lambda>r. (r, AtStart)) reqs)"
| advance: "reachable x env store0 reqs s \<Longrightarrow> sysStep x env label s s'
             \<Longrightarrow> reachable x env store0 reqs s'"

text \<open>The two states of an event's lock.\<close>

definition claimed :: "logStore \<Rightarrow> string \<Rightarrow> bool" where
  "claimed store ev = (case store ev of None \<Rightarrow> False | Some l \<Rightarrow> vCardsDownloaded l)"

text \<open>The contact-card field of a response; error and information bodies have none.\<close>

fun vcfOf :: "response \<Rightarrow> string option" where
  "vcfOf (status, Payload success message excelBase64 vcf) = vcf"
| "vcfOf (status, b) = None"

text \<open>
  A request that saw its claim of the lock of an event succeed, and a request that saw
  the lock already taken: the record it read has \<open>vCardsDownloaded = true\<close> and its
  response has no contact cards.
\<close>

fun isWinner :: "string \<Rightarrow> request \<times> proc \<Rightarrow> bool" where
  "isWinner ev (req, Finished (ClaimedFirst l) resp) = (eventName req = ev)"
| "isWinner ev (req, p) = False"

fun isLate :: "request \<times> proc \<Rightarrow> bool" where
  "isLate (req, Finished (ClaimedLate (Some l)) resp) = (vCardsDownloaded l \<and> vcfOf resp = None)"
| "isLate (req, p) = False"

text \<open>Running a schedule, a list of labels, runs the steps it names in order.\<close>

fun sysRun :: "ext \<Rightarrow> env \<Rightarrow> (nat \<times> registration list) list \<Rightarrow> sys \<Rightarrow> sys" where
  "sysRun x env [] s = s"
| "sysRun x env ((i, found) # sched) (store, ps) =
     (if i < length ps then
        (case ps ! i of (req, p) \<Rightarrow>
           case pstep x env req found store p of (store', p') \<Rightarrow>
             sysRun x env sched (store', ps[i := (req, p')]))
      else sysRun x env sched (store, ps))"

subsection \<open>Example data\<close>

text \<open>
  The event ``Hackathon'': an internal team whose captain has roll 101 and whose one
  member has a phone, an external team without members, and a team whose first member
  has no phone while its second has one.
\<close>

definition ravi :: member where
  "ravi = \<lparr>memName = Some ''Ravi'', memRoll = Some ''102'', memPhone = Some ''9876543210''\<rparr>"

definition noPhoneMember :: member where
  "noPhoneMember = \<lparr>memName = Some ''Kiran'', memRoll = None, memPhone = Some []\<rparr>"

definition internalReg :: registration where
  "internalReg =
     \<lparr>teamName = ''Alpha'', capName = ''Asha'', capPhone = ''9000000001'', capRoll = ''101'',
      participantType = ''INTERNAL'', createdAt = 1700000000, teamMembers = Some [ravi]\<rparr>"

definition externalReg :: registration where
  "externalReg =
     \<lparr>teamName = ''Beta'', capName = ''Bela'', capPhone = ''+91 98765-43210'', capRoll = ''77'',
      participantType = ''EXTERNAL'', createdAt = 1700000100, teamMembers = Some []\<rparr>"

definition lateMemberReg :: registration where
  "lateMemberReg =
     \<lparr>teamName = ''Gamma'', capName = ''Gita'', capPhone = ''9000000003'', capRoll = ''103'',
      participantType = ''INTERNAL'', createdAt = 1700000200,
      teamMembers = Some [noPhoneMember, ravi]\<rparr>"

definition testExt :: ext where
  "testExt = \<lparr>localeString = showNat, xlsxBase64 = (\<lambda>ws. showNat (length (columns ws)))\<rparr>"

definition testEnv :: env where
  "testEnv = [''PASSKEY_MASTER'' \<mapsto> ''master!'', ''PASSKEY_HACK'' \<mapsto> ''hack123'']"

definition adminReq :: request where
  "adminReq = \<lparr>eventName = ''Hackathon'', coordsValue = None, coordinatorName = ''Root'',
                passkey = Some ''master!'', now = 50\<rparr>"

definition meeraReq :: request where
  "meeraReq = \<lparr>eventName = ''Hackathon'', coordsValue = Some ''hack'', coordinatorName = ''Meera'',
                passkey = Some ''hack123'', now = 100\<rparr>"

definition nikhilReq :: request where
  "nikhilReq = \<lparr>eventName = ''Hackathon'', coordsValue = Some ''hack'', coordinatorName = ''Nikhil'',
                 passkey = Some ''hack123'', now = 200\<rparr>"

definition wrongKeyReq :: request where
  "wrongKeyReq = \<lparr>eventName = ''Hackathon'', coordsValue = Some ''hack'', coordinatorName = ''Omar'',
                   passkey = Some ''guess'', now = 300\<rparr>"

definition noEventReq :: request where
  "noEventReq = \<lparr>eventName = ''Hackathon'', coordsValue = None, coordinatorName = ''Omar'',
                  passkey = Some ''guess'', now = 400\<rparr>"

definition meerasLock :: lock where
  "meerasLock = \<lparr>vCardsDownloaded = True, firstDownloaderName = Some ''Meera'', downloadTime = Some 100\<rparr>"

subsection \<open>Notions the properties are stated with\<close>

text \<open>
  The lock of an event as a request finds it once step 2 has run: the event's record, or
  the fresh record that step 2 creates for an event that has none.
\<close>

definition lockState :: "logStore \<Rightarrow> string \<Rightarrow> lock" where
  "lockState store ev = (case store ev of None \<Rightarrow> newLock | Some l \<Rightarrow> l)"

text \<open>
  Requests served one after the other, each with the registrations found for it: the
  lock records at the end and all database operations performed.
\<close>

fun serveAll ::
    "ext \<Rightarrow> env \<Rightarrow> logStore \<Rightarrow> (registration list \<times> request) list \<Rightarrow> logStore \<times> dbOp list" where
  "serveAll x env store [] = (store, [])"
| "serveAll x env store ((registrations, req) # calls) =
     (case handleDownload x env registrations store req of
        (resp, store', ops) \<Rightarrow>
          (case serveAll x env store' calls of (store'', ops') \<Rightarrow> (store'', ops @ ops')))"

text \<open>The caller passed step 1.\<close>

definition authorized :: "env \<Rightarrow> request \<Rightarrow> bool" where
  "authorized env req = (authorize env req = Admin \<or> authorize env req = Coordinator)"

text \<open>The update of lines 75 to 79.\<close>

definition claimBy :: "request \<Rightarrow> lock \<Rightarrow> lock" where
  "claimBy req l = l\<lparr>vCardsDownloaded := True, firstDownloaderName := Some (coordinatorName req),
                      downloadTime := Some (now req)\<rparr>"

text \<open>
  What holds of a request in flight, given the lock records: its \<open>admin\<close> flag is its
  role; past step 2 its event has a record; once its claim failed, and once it has
  succeeded, the event's lock is taken; and its response carries contact cards when the
  claim succeeded and none when it failed.
\<close>

fun procOk :: "env \<Rightarrow> logStore \<Rightarrow> request \<times> proc \<Rightarrow> bool" where
  "procOk env store (req, AtStart) = True"
| "procOk env store (req, AtFindLog admin regs) =
     (authorized env req \<and> admin = (authorize env req = Admin))"
| "procOk env store (req, AtCreate admin regs) =
     (authorized env req \<and> admin = (authorize env req = Admin))"
| "procOk env store (req, AtRefetch admin regs) =
     (authorized env req \<and> admin = (authorize env req = Admin) \<and> store (eventName req) \<noteq> None)"
| "procOk env store (req, AtResolve admin regs) =
     (authorized env req \<and> admin = (authorize env req = Admin) \<and> store (eventName req) \<noteq> None)"
| "procOk env store (req, AtLateRead regs) =
     (authorize env req = Coordinator \<and> claimed store (eventName req))"
| "procOk env store (req, Finished Rejected resp) = (\<not> authorized env req)"
| "procOk env store (req, Finished NoRegistrations resp) = authorized env req"
| "procOk env store (req, Finished (AdminRead ld) resp) = (authorize env req = Admin)"
| "procOk env store (req, Finished (ClaimedFirst l) resp) =
     (authorize env req = Coordinator \<and> claimed store (eventName req) \<and> vcfOf resp \<noteq> None
      \<and> vCardsDownloaded l \<and> firstDownloaderName l = Some (coordinatorName req))"
| "procOk env store (req, Finished (ClaimedLate ld) resp) =
     (authorize env req = Coordinator \<and> isLate (req, Finished (ClaimedLate ld) resp))"

text \<open>A race of two coordinators for the event ``Hackathon'', from no lock record at all.\<close>

definition raceSchedule :: "(nat \<times> registration list) list" where
  "raceSchedule =
     [(0, [internalReg]), (1, [internalReg]), (0, []), (1, []), (0, []), (1, []), (1, []),
      (1, []), (0, []), (0, [])]"

definition nikhilsLock :: lock where
  "nikhilsLock = \<lparr>vCardsDownloaded = True, firstDownloaderName = Some ''Nikhil'', downloadTime = Some 200\<rparr>"

text \<open>
  The invariant of the system: the requests are the ones that came in, each is in order,
  and no event has two winners.
\<close>

definition sysInv :: "env \<Rightarrow> request list \<Rightarrow> sys \<Rightarrow> bool" where
  "sysInv env reqs s =
     (map fst (snd s) = reqs
      \<and> (\<forall>rp \<in> set (snd s). procOk env (fst s) rp)
      \<and> (\<forall>ev. \<forall>i < length (snd s). \<forall>j < length (snd s).
            isWinner ev (snd s ! i) \<and> isWinner ev (snd s ! j) \<longrightarrow> i = j))"

text \<open>The steps a request has left at most.\<close>

fun remaining :: "proc \<Rightarrow> nat" where
  "remaining AtStart = 6"
| "remaining (AtFindLog admin regs) = 5"
| "remaining (AtCreate admin regs) = 4"
| "remaining (AtRefetch admin regs) = 3"
| "remaining (AtResolve admin regs) = 2"
| "remaining (AtLateRead regs) = 1"
| "remaining (Finished out resp) = 0"

section \<open>Properties\<close>

subsection \<open>Strings\<close>

lemma isDigit_iff: "isDigit c \<longleftrightarrow> c \<in> set ''0123456789''"
  by (cases c) (simp add: isDigit_def)

lemma sliceLast8_rev: "sliceLast8 s = rev (take 8 (rev s))"
  by (simp add: sliceLast8_def take_rev)

lemma hackathon_prefix: "toLowerCase (substring02 ''Hackathon'') = ''ha''"
  by code_simp

lemma toLowerCase_alphabet:
  "toLowerCase ''ABCDEFGHIJKLMNOPQRSTUVWXYZ'' = ''abcdefghijklmnopqrstuvwxyz''"
  by code_simp

subsection \<open>Contact cards\<close>

lemma generateCards_concat:
  "foldl (vCardStep ev) acc regs = acc @ concat (map (\<lambda>r. concat (regCards ev r)) regs)"
  by (induction regs arbitrary: acc) (simp_all add: vCardStep_def)

text \<open>
  C10. A contact card is six lines: the fixed opening lines, the file name as the \<open>FN\<close>
  field and as the \<open>N\<close> field, the phone as the \<open>TEL\<close> field, and the closing line.
  The name argument has no effect on the card, so no card shows the name of a captain or
  of a member.
\<close>

theorem generateVCard_fields:
  "generateVCard name phone filename =
     concat (map (\<lambda>l. l @ [CHR 0x0A])
       [''BEGIN:VCARD'', ''VERSION:3.0'', ''FN:'' @ filename, ''N:;'' @ filename @ '';;;'',
        ''TEL;TYPE=CELL:'' @ phone, ''END:VCARD''])
   \<and> generateVCard name phone filename = generateVCard name' phone filename"
  by (simp add: generateVCard_def nl_def)

text \<open>
  C9. The identifier of a registration is the first two characters of the event name in
  lower case, followed by the captain's roll when the participant type is \<open>INTERNAL\<close>,
  and otherwise by \<open>EXT\<close> and the last eight of the digits of the captain's phone. The
  captain's card is named by the identifier and \<open>-1\<close>. For the event ``Hackathon'', an
  internal registration with captain roll 101 and a first member with a phone yields the
  cards \<open>ha101-1\<close> and \<open>ha101-2\<close>.
\<close>

theorem uniqueId_of_registration:
  "uniqueId ev reg =
     map toLowerChar (take 2 ev) @
       (if participantType reg = ''INTERNAL'' then capRoll reg
        else ''EXT'' @ rev (take 8 (rev (filter (\<lambda>c. c \<in> set ''0123456789'') (capPhone reg)))))
   \<and> regCards ev reg ! 0 = generateVCard (capName reg) (capPhone reg) (uniqueId ev reg @ ''-1'')
   \<and> regCards ''Hackathon''
        (reg\<lparr>participantType := ''INTERNAL'', capRoll := ''101'',
             teamMembers := Some (m\<lparr>memPhone := Some ''9876543210''\<rparr> # ms)\<rparr>)
      = [generateVCard (capName reg) (capPhone reg) ''ha101-1'',
         generateVCard (jsString (memName m)) ''9876543210'' ''ha101-2'']"
proof -
  have digits: "filter isDigit s = filter (\<lambda>c. c \<in> set ''0123456789'') s" for s
    by (rule filter_cong) (simp_all only: isDigit_iff)
  have shape: "uniqueId ev reg =
     map toLowerChar (take 2 ev) @
       (if participantType reg = ''INTERNAL'' then capRoll reg
        else ''EXT'' @ rev (take 8 (rev (filter (\<lambda>c. c \<in> set ''0123456789'') (capPhone reg)))))"
    unfolding uniqueId_def Let_def toLowerCase_def substring02_def stripNonDigits_def
      sliceLast8_rev digits by simp
  have first: "regCards ev reg ! 0
      = generateVCard (capName reg) (capPhone reg) (uniqueId ev reg @ ''-1'')"
    by (simp add: regCards_def Let_def)
  have example: "regCards ''Hackathon''
        (reg\<lparr>participantType := ''INTERNAL'', capRoll := ''101'',
             teamMembers := Some (m\<lparr>memPhone := Some ''9876543210''\<rparr> # ms)\<rparr>)
      = [generateVCard (capName reg) (capPhone reg) ''ha101-1'',
         generateVCard (jsString (memName m)) ''9876543210'' ''ha101-2'']"
    by (simp add: regCards_def uniqueId_def Let_def hackathon_prefix firstMemberWithPhone_def
        truthy_def jsString_def)
  from shape first example show ?thesis by blast
qed

text \<open>
  C8, as the code has it. The cards of a registration are the captain's card, named by
  the identifier and \<open>-1\<close>, and a second card, named by the identifier and \<open>-2\<close> and
  carrying the first member's phone, if and only if the registration has a first team
  member and that member's phone is not empty. The phones of later members play no part.
  The text of all cards is the concatenation of the registrations' cards in order.
\<close>

theorem second_card_iff_first_member_phone:
  "(length (regCards ev reg) = 2 \<longleftrightarrow>
      (\<exists>m ms ph. teamMembers reg = Some (m # ms) \<and> memPhone m = Some ph \<and> ph \<noteq> []))
   \<and> (length (regCards ev reg) = 1 \<longleftrightarrow>
      \<not> (\<exists>m ms ph. teamMembers reg = Some (m # ms) \<and> memPhone m = Some ph \<and> ph \<noteq> []))
   \<and> regCards ev reg ! 0 = generateVCard (capName reg) (capPhone reg) (uniqueId ev reg @ ''-1'')
   \<and> (\<forall>m ms ph. teamMembers reg = Some (m # ms) \<and> memPhone m = Some ph \<and> ph \<noteq> [] \<longrightarrow>
        regCards ev reg ! 1 = generateVCard (jsString (memName m)) ph (uniqueId ev reg @ ''-2''))
   \<and> generateCards ev regs = concat (map (\<lambda>r. concat (regCards ev r)) regs)"
  by (auto simp add: regCards_def Let_def firstMemberWithPhone_def truthy_def jsString_def
      generateCards_def generateCards_concat split: option.splits list.splits)

theorem second_card_iff_first_member_phone_witness:
  "teamMembers internalReg = Some [ravi] \<and> memPhone ravi = Some ''9876543210''
   \<and> length (regCards ''Hackathon'' internalReg) = 2
   \<and> regCards ''Hackathon'' internalReg ! 1 = generateVCard ''Ravi'' ''9876543210'' ''ha101-2''"
proof -
  have members: "teamMembers internalReg = Some (ravi # [])"
    by (simp add: internalReg_def)
  have phone: "memPhone ravi = Some ''9876543210''"
    by (simp add: ravi_def)
  have uid: "uniqueId ''Hackathon'' internalReg = ''ha101''"
    by (simp add: uniqueId_def Let_def hackathon_prefix internalReg_def)
  from second_card_iff_first_member_phone [of "''Hackathon''" internalReg "[]"] members phone
  have "length (regCards ''Hackathon'' internalReg) = 2"
    and "regCards ''Hackathon'' internalReg ! 1
          = generateVCard (jsString (memName ravi)) ''9876543210'' (uniqueId ''Hackathon'' internalReg @ ''-2'')"
    by blast+
  with members phone uid show ?thesis
    by (simp add: jsString_def ravi_def)
qed

text \<open>
  A registration whose second member has a phone, while its first has none, gets the
  captain's card only: it has a team member with a phone and no second card.
\<close>

theorem second_card_any_member_counterexample:
  "teamMembers lateMemberReg = Some [noPhoneMember, ravi]
   \<and> memPhone ravi = Some ''9876543210''
   \<and> regCards ''Hackathon'' lateMemberReg = [generateVCard ''Gita'' ''9000000003'' ''ha103-1'']"
  by (simp add: lateMemberReg_def ravi_def noPhoneMember_def regCards_def uniqueId_def Let_def
      hackathon_prefix firstMemberWithPhone_def truthy_def)

subsection \<open>The spreadsheet\<close>

lemma maxStep_max: "maxStep a r = max a (memberCount r)"
  by (auto simp add: maxStep_def memberCount_def split: option.splits)

lemma foldl_maxStep: "foldl maxStep a regs = Max (set (a # map memberCount regs))"
proof (induction regs arbitrary: a)
  case Nil
  show ?case by simp
next
  case (Cons r regs)
  have "foldl maxStep a (r # regs) = Max (set (max a (memberCount r) # map memberCount regs))"
    by (simp add: Cons.IH maxStep_max)
  also have "\<dots> = Max (set (a # map memberCount (r # regs)))"
    by (cases "map memberCount regs = []") (simp_all add: max.assoc)
  finally show ?case .
qed



lemma showNat_nonempty: "showNat n \<noteq> []" "[] \<noteq> showNat n"
  by (subst showNat.simps, simp)+

lemma digitChar_inj: "a < 10 \<Longrightarrow> b < 10 \<Longrightarrow> digitChar a = digitChar b \<Longrightarrow> a = b"
  by (simp add: digitChar_def char_of_eq_iff take_bit_eq_mod)

lemma showNat_inj: "showNat a = showNat b \<Longrightarrow> a = b"
proof (induction a arbitrary: b rule: showNat.induct)
  case (1 a)
  show ?case
  proof (cases "a < 10")
    case small: True
    show ?thesis
    proof (cases "b < 10")
      case True
      with small "1.prems" show ?thesis
        by (simp add: showNat.simps [of a] showNat.simps [of b] digitChar_inj)
    next
      case False
      with small "1.prems" show ?thesis
        by (simp add: showNat.simps [of a] showNat.simps [of b] showNat_nonempty)
    qed
  next
    case big: False
    show ?thesis
    proof (cases "b < 10")
      case True
      with big "1.prems" show ?thesis
        by (simp add: showNat.simps [of a] showNat.simps [of b] showNat_nonempty)
    next
      case False
      with big "1.prems" have "showNat (a div 10) = showNat (b div 10)"
        and "digitChar (a mod 10) = digitChar (b mod 10)"
        by (simp_all add: showNat.simps [of a] showNat.simps [of b])
      with big "1.IH" have "a div 10 = b div 10" and "a mod 10 = b mod 10"
        by (simp_all add: digitChar_inj)
      then show ?thesis
        by (metis div_mult_mod_eq)
    qed
  qed
qed


lemma showNat_eq_iff: "showNat i = showNat j \<longleftrightarrow> i = j"
  by (auto dest: showNat_inj)

lemma name_roll: "showNat i @ ''Name'' \<noteq> showNat j @ ''Roll''"
  by simp

lemma name_phone: "showNat i @ ''Name'' \<noteq> showNat j @ ''Phone''"
proof
  assume "showNat i @ ''Name'' = showNat j @ ''Phone''"
  then have "rev (showNat i @ ''Name'') ! 1 = rev (showNat j @ ''Phone'') ! 1"
    by simp
  then show False by simp
qed

lemma roll_phone: "showNat i @ ''Roll'' \<noteq> showNat j @ ''Phone''"
proof
  assume "showNat i @ ''Roll'' = showNat j @ ''Phone''"
  then have "rev (showNat i @ ''Roll'') ! 0 = rev (showNat j @ ''Phone'') ! 0"
    by simp
  then show False by simp
qed

lemmas key_distinct =
  showNat_eq_iff name_roll name_roll [THEN not_sym] name_phone name_phone [THEN not_sym]
  roll_phone roll_phone [THEN not_sym]

lemma memberCells_name:
  "memberCells row (n, m) (CHR ''m'' # showNat j @ ''Name'')
     = (if j = n + 1 then Some (orDash (memName m)) else row (CHR ''m'' # showNat j @ ''Name''))"
  by (simp add: memberCells_def Let_def key_distinct)

lemma memberCells_roll:
  "memberCells row (n, m) (CHR ''m'' # showNat j @ ''Roll'')
     = (if j = n + 1 then Some (orDash (memRoll m)) else row (CHR ''m'' # showNat j @ ''Roll''))"
  by (simp add: memberCells_def Let_def key_distinct)

lemma memberCells_phone:
  "memberCells row (n, m) (CHR ''m'' # showNat j @ ''Phone'')
     = (if j = n + 1 then Some (orDash (memPhone m)) else row (CHR ''m'' # showNat j @ ''Phone''))"
  by (simp add: memberCells_def Let_def key_distinct)



lemma foldl_memberCells_name:
  "foldl memberCells row (enumerate n ms) (CHR ''m'' # showNat j @ ''Name'')
     = (if n < j \<and> j \<le> n + length ms then Some (orDash (memName (ms ! (j - n - 1))))
        else row (CHR ''m'' # showNat j @ ''Name''))"
proof (induction ms arbitrary: row rule: rev_induct)
  case Nil
  show ?case by auto
next
  case (snoc m ms)
  show ?case
    by (auto simp add: enumerate_append_eq memberCells_name snoc.IH nth_append)
qed


lemma foldl_memberCells_roll:
  "foldl memberCells row (enumerate n ms) (CHR ''m'' # showNat j @ ''Roll'')
     = (if n < j \<and> j \<le> n + length ms then Some (orDash (memRoll (ms ! (j - n - 1))))
        else row (CHR ''m'' # showNat j @ ''Roll''))"
proof (induction ms arbitrary: row rule: rev_induct)
  case Nil
  show ?case by auto
next
  case (snoc m ms)
  show ?case
    by (auto simp add: enumerate_append_eq memberCells_roll snoc.IH nth_append)
qed

lemma foldl_memberCells_phone:
  "foldl memberCells row (enumerate n ms) (CHR ''m'' # showNat j @ ''Phone'')
     = (if n < j \<and> j \<le> n + length ms then Some (orDash (memPhone (ms ! (j - n - 1))))
        else row (CHR ''m'' # showNat j @ ''Phone''))"
proof (induction ms arbitrary: row rule: rev_induct)
  case Nil
  show ?case by auto
next
  case (snoc m ms)
  show ?case
    by (auto simp add: enumerate_append_eq memberCells_phone snoc.IH nth_append)
qed

lemma captainCells_member_key: "captainCells loc reg (CHR ''m'' # k) = None"
  by (simp add: captainCells_def)


lemma memberCount_le_max: "r \<in> set regs \<Longrightarrow> memberCount r \<le> maxTeamMembers regs"
  by (simp add: maxTeamMembers_def foldl_maxStep)




text \<open>
  C7, as the code has it. In the row of a registration, the three cells of a member slot
  beyond the registration's own members have no value: the row object lacks their keys
  and the cells stay blank. The cells of a slot the registration does fill hold the
  member's name, roll and phone, each replaced by a dash when it is absent or empty.
\<close>

theorem member_cells_of_row:
  "(i < length regs \<and> memberCount (regs ! i) < j \<longrightarrow>
      (rows (buildWorksheet loc regs) ! i) (''m'' @ showNat j @ ''Name'') = None
    \<and> (rows (buildWorksheet loc regs) ! i) (''m'' @ showNat j @ ''Roll'') = None
    \<and> (rows (buildWorksheet loc regs) ! i) (''m'' @ showNat j @ ''Phone'') = None)
   \<and> (i < length regs \<and> teamMembers (regs ! i) = Some ms \<and> 0 < j \<and> j \<le> length ms \<longrightarrow>
      (rows (buildWorksheet loc regs) ! i) (''m'' @ showNat j @ ''Name'')
        = Some (case memName (ms ! (j - 1)) of None \<Rightarrow> ''-'' | Some s \<Rightarrow> if s = [] then ''-'' else s)
    \<and> (rows (buildWorksheet loc regs) ! i) (''m'' @ showNat j @ ''Roll'')
        = Some (case memRoll (ms ! (j - 1)) of None \<Rightarrow> ''-'' | Some s \<Rightarrow> if s = [] then ''-'' else s)
    \<and> (rows (buildWorksheet loc regs) ! i) (''m'' @ showNat j @ ''Phone'')
        = Some (case memPhone (ms ! (j - 1)) of None \<Rightarrow> ''-'' | Some s \<Rightarrow> if s = [] then ''-'' else s))"
  by (auto simp add: buildWorksheet_def buildRow_def memberCount_def captainCells_member_key
      foldl_memberCells_name foldl_memberCells_roll foldl_memberCells_phone orDash_def
      split: option.splits)

lemma showNat_1: "showNat (Suc 0) = ''1''"
  by code_simp

theorem member_cells_of_row_witness:
  "memberCount externalReg < 1
   \<and> (rows (buildWorksheet showNat [internalReg, externalReg]) ! 1) ''m1Name'' = None
   \<and> (rows (buildWorksheet showNat [internalReg, externalReg]) ! 1) ''m1Roll'' = None
   \<and> (rows (buildWorksheet showNat [internalReg, externalReg]) ! 1) ''m1Phone'' = None
   \<and> teamMembers lateMemberReg = Some [noPhoneMember, ravi]
   \<and> (rows (buildWorksheet showNat [lateMemberReg]) ! 0) ''m1Name'' = Some ''Kiran''
   \<and> (rows (buildWorksheet showNat [lateMemberReg]) ! 0) ''m1Roll'' = Some ''-''
   \<and> (rows (buildWorksheet showNat [lateMemberReg]) ! 0) ''m1Phone'' = Some ''-''"
proof -
  have c: "memberCount externalReg < 1"
    by (simp add: memberCount_def externalReg_def)
  have t: "teamMembers lateMemberReg = Some [noPhoneMember, ravi]"
    by (simp add: lateMemberReg_def)
  from member_cells_of_row [where i = 1 and regs = "[internalReg, externalReg]" and j = 1
      and loc = showNat and ms = "[]"] c
  have blank: "(rows (buildWorksheet showNat [internalReg, externalReg]) ! 1) ''m1Name'' = None
    \<and> (rows (buildWorksheet showNat [internalReg, externalReg]) ! 1) ''m1Roll'' = None
    \<and> (rows (buildWorksheet showNat [internalReg, externalReg]) ! 1) ''m1Phone'' = None"
    by (simp add: showNat_1)
  from member_cells_of_row [where i = 0 and regs = "[lateMemberReg]" and j = 1
      and loc = showNat and ms = "[noPhoneMember, ravi]"] t
  have dash: "(rows (buildWorksheet showNat [lateMemberReg]) ! 0) ''m1Name'' = Some ''Kiran''
    \<and> (rows (buildWorksheet showNat [lateMemberReg]) ! 0) ''m1Roll'' = Some ''-''
    \<and> (rows (buildWorksheet showNat [lateMemberReg]) ! 0) ''m1Phone'' = Some ''-''"
    by (simp add: showNat_1 noPhoneMember_def)
  from c t blank dash show ?thesis by simp
qed

text \<open>
  With an internal team of one member and an external team of none, the second row has
  no value for the name of member 1, rather than a dash.
\<close>

theorem blank_slot_counterexample:
  "memberCount externalReg < maxTeamMembers [internalReg, externalReg]
   \<and> (rows (buildWorksheet showNat [internalReg, externalReg]) ! 1) ''m1Name'' = None"
  by (simp add: memberCount_def externalReg_def internalReg_def maxTeamMembers_def maxStep_def
      buildWorksheet_def buildRow_def captainCells_def)

subsection \<open>The handler, one request at a time\<close>

lemma isAdmin_iff:
  "isAdmin env req \<longleftrightarrow> (\<exists>k. env ''PASSKEY_MASTER'' = Some k \<and> k \<noteq> [] \<and> passkey req = Some k)"
  by (auto simp add: isAdmin_def Let_def truthy_def split: option.splits)

lemma authorize_Admin_iff: "authorize env req = Admin \<longleftrightarrow> isAdmin env req"
  by (simp add: authorize_def Let_def split: option.splits)

lemma authorize_Denied_iff:
  "authorize env req = Denied \<longleftrightarrow>
     \<not> isAdmin env req \<and>
     (\<exists>cv. coordsValue req = Some cv \<and>
        (\<not> truthy (env (''PASSKEY_'' @ toUpperCase cv))
         \<or> env (''PASSKEY_'' @ toUpperCase cv) \<noteq> passkey req))"
  by (cases "coordsValue req") (auto simp add: authorize_def Let_def)

lemma authorize_Coordinator_iff:
  "authorize env req = Coordinator \<longleftrightarrow>
     \<not> isAdmin env req \<and>
     (\<exists>cv k. coordsValue req = Some cv \<and> env (''PASSKEY_'' @ toUpperCase cv) = Some k
        \<and> k \<noteq> [] \<and> passkey req = Some k)"
proof (cases "coordsValue req")
  case None
  then show ?thesis by (simp add: authorize_def)
next
  case (Some cv)
  show ?thesis
  proof (cases "env (''PASSKEY_'' @ toUpperCase cv)")
    case None
    with Some show ?thesis by (simp add: authorize_def Let_def truthy_def)
  next
    case (Some k)
    with \<open>coordsValue req = Some cv\<close> show ?thesis
      by (auto simp add: authorize_def Let_def truthy_def)
  qed
qed

lemma toUpperCase_hack: "toUpperCase ''hack'' = ''HACK''"
  by code_simp

lemma ensureLog_Some:
  "store ev = Some l \<Longrightarrow> ensureLog store ev = (Some l, store, [LogFindOne ev])"
  by (simp add: ensureLog_def findOne_def)

lemma ensureLog_None:
  "store ev = None \<Longrightarrow>
     ensureLog store ev = (Some newLock, store(ev \<mapsto> newLock), [LogFindOne ev, LogCreate ev])"
  by (simp add: ensureLog_def findOne_def create_def)

lemma resolveLock_admin:
  "resolveLock True store req = (False, store (eventName req), store, [LogFindOne (eventName req)])"
  by (simp add: resolveLock_def findOne_def Let_def)

lemma resolveLock_first:
  "store (eventName req) = Some l \<Longrightarrow> \<not> vCardsDownloaded l \<Longrightarrow>
     resolveLock False store req =
       (True,
        Some (l\<lparr>vCardsDownloaded := True, firstDownloaderName := Some (coordinatorName req),
                downloadTime := Some (now req)\<rparr>),
        store(eventName req \<mapsto> l\<lparr>vCardsDownloaded := True,
                firstDownloaderName := Some (coordinatorName req), downloadTime := Some (now req)\<rparr>),
        [LogFindOneAndUpdate (eventName req)])"
  by (simp add: resolveLock_def findOneAndUpdate_def Let_def)

lemma resolveLock_late:
  "store (eventName req) = Some l \<Longrightarrow> vCardsDownloaded l \<Longrightarrow>
     resolveLock False store req =
       (False, Some l, store, [LogFindOneAndUpdate (eventName req), LogFindOne (eventName req)])"
  by (simp add: resolveLock_def findOneAndUpdate_def findOne_def Let_def)

lemma respond_Some:
  "\<exists>message. respond x admin isFirst (Some l) ev regs =
     (200, Payload True message (xlsxBase64 x (buildWorksheet (localeString x) regs))
             (if admin \<or> isFirst then Some (generateCards ev regs) else None))"
  by (simp add: respond_def cardsAndMessage_def Let_def)


text \<open>
  Line 28 calls \<^verbatim>\<open>toUpperCase\<close> on the event identifier before any secret is
  looked up: a caller who is not admin and sends no event identifier, or one that is not
  a string, makes it throw, and the \<^verbatim>\<open>catch\<close> answers with status 500.
\<close>

lemma missing_coordsValue_server_error:
  "\<not> isAdmin env req \<Longrightarrow> coordsValue req = None \<Longrightarrow>
     handleDownload x env regs store req = (serverError, store, [])"
  by (simp add: handleDownload_def authorize_def)

text \<open>
  C4, as the code has it. The caller is treated as admin exactly when the master secret
  is configured (set and not empty) and equals the passkey. Any other caller who sends a
  string \<open>cv\<close> as event identifier, and whose passkey differs from the secret configured
  under \<open>PASSKEY_\<close> and the identifier in upper case, or for whom that secret is not
  set or is empty, gets the 401 response \<open>Invalid Passkey\<close>. Any other caller whose
  event identifier is missing or not a string gets the 500 response
  \<open>Server Error processing download\<close> instead. In both cases no database operation
  has been performed by then and the lock records are as they were, whatever the
  registrations and the records are.
\<close>

theorem unauthorized_before_data_access:
  "(authorize env req = Admin \<longleftrightarrow>
      (\<exists>k. env ''PASSKEY_MASTER'' = Some k \<and> k \<noteq> [] \<and> passkey req = Some k))
   \<and> (authorize env req \<noteq> Admin \<and> coordsValue req = Some cv
        \<and> (env (''PASSKEY_'' @ toUpperCase cv) = None
            \<or> env (''PASSKEY_'' @ toUpperCase cv) = Some []
            \<or> env (''PASSKEY_'' @ toUpperCase cv) \<noteq> passkey req)
       \<longrightarrow> handleDownload x env regs store req = ((401, Error ''Invalid Passkey''), store, []))
   \<and> (authorize env req \<noteq> Admin \<and> coordsValue req = None
       \<longrightarrow> handleDownload x env regs store req
             = ((500, Error ''Server Error processing download''), store, []))"
proof -
  have denied: "authorize env req = Denied"
    if "authorize env req \<noteq> Admin" and "coordsValue req = Some cv"
      and "env (''PASSKEY_'' @ toUpperCase cv) = None
            \<or> env (''PASSKEY_'' @ toUpperCase cv) = Some []
            \<or> env (''PASSKEY_'' @ toUpperCase cv) \<noteq> passkey req"
    using that unfolding authorize_Denied_iff authorize_Admin_iff
    by (cases "env (''PASSKEY_'' @ toUpperCase cv)") (auto simp add: truthy_def)
  have role: "authorize env req = Admin \<longleftrightarrow>
      (\<exists>k. env ''PASSKEY_MASTER'' = Some k \<and> k \<noteq> [] \<and> passkey req = Some k)"
    by (simp add: authorize_Admin_iff isAdmin_iff)
  have rejected: "handleDownload x env regs store req = ((401, Error ''Invalid Passkey''), store, [])"
    if "authorize env req \<noteq> Admin" and "coordsValue req = Some cv"
      and "env (''PASSKEY_'' @ toUpperCase cv) = None
            \<or> env (''PASSKEY_'' @ toUpperCase cv) = Some []
            \<or> env (''PASSKEY_'' @ toUpperCase cv) \<noteq> passkey req"
    using denied [OF that] by (simp add: handleDownload_def)
  have thrown: "handleDownload x env regs store req
             = ((500, Error ''Server Error processing download''), store, [])"
    if "authorize env req \<noteq> Admin" and "coordsValue req = None"
    using that missing_coordsValue_server_error [of env req x regs store]
    by (simp add: authorize_Admin_iff serverError_def)
  from role rejected thrown show ?thesis by blast
qed

theorem unauthorized_before_data_access_witness:
  "authorize testEnv adminReq = Admin
   \<and> authorize testEnv wrongKeyReq \<noteq> Admin
   \<and> coordsValue wrongKeyReq = Some ''hack''
   \<and> testEnv (''PASSKEY_'' @ toUpperCase ''hack'') = Some ''hack123''
   \<and> passkey wrongKeyReq = Some ''guess''
   \<and> handleDownload testExt testEnv [internalReg] Map.empty wrongKeyReq
       = ((401, Error ''Invalid Passkey''), Map.empty, [])
   \<and> authorize testEnv noEventReq \<noteq> Admin
   \<and> coordsValue noEventReq = None
   \<and> handleDownload testExt testEnv [] [''Hackathon'' \<mapsto> meerasLock] noEventReq
       = ((500, Error ''Server Error processing download''), [''Hackathon'' \<mapsto> meerasLock], [])"
proof -
  have a: "authorize testEnv adminReq = Admin"
    using unauthorized_before_data_access [of testEnv adminReq]
    by (simp add: testEnv_def adminReq_def)
  have n: "authorize testEnv wrongKeyReq \<noteq> Admin"
    using unauthorized_before_data_access [of testEnv wrongKeyReq]
    by (simp add: testEnv_def wrongKeyReq_def)
  have c: "coordsValue wrongKeyReq = Some ''hack''" and p: "passkey wrongKeyReq = Some ''guess''"
    by (simp_all add: wrongKeyReq_def)
  have k: "testEnv (''PASSKEY_'' @ toUpperCase ''hack'') = Some ''hack123''"
    by (simp add: testEnv_def toUpperCase_hack)
  from n c p k
    unauthorized_before_data_access [of testEnv wrongKeyReq "''hack''" testExt "[internalReg]" Map.empty]
  have r: "handleDownload testExt testEnv [internalReg] Map.empty wrongKeyReq
       = ((401, Error ''Invalid Passkey''), Map.empty, [])"
    by simp
  have n': "authorize testEnv noEventReq \<noteq> Admin"
    using unauthorized_before_data_access [of testEnv noEventReq]
    by (simp add: testEnv_def noEventReq_def)
  have c': "coordsValue noEventReq = None"
    by (simp add: noEventReq_def)
  from n' c'
    unauthorized_before_data_access [where env = testEnv and req = noEventReq and x = testExt
      and regs = "[]" and store = "[''Hackathon'' \<mapsto> meerasLock]"]
  have t: "handleDownload testExt testEnv [] [''Hackathon'' \<mapsto> meerasLock] noEventReq
       = ((500, Error ''Server Error processing download''), [''Hackathon'' \<mapsto> meerasLock], [])"
    by simp
  from a n c p k r n' c' t show ?thesis by simp
qed

text \<open>
  A caller with a wrong passkey and no event identifier has no secret configured for
  them and is not admin, and is answered with status 500, not 401.
\<close>

theorem missing_identifier_counterexample:
  "authorize testEnv noEventReq \<noteq> Admin
   \<and> coordsValue noEventReq = None
   \<and> passkey noEventReq = Some ''guess''
   \<and> handleDownload testExt testEnv [internalReg] Map.empty noEventReq
       = ((500, Error ''Server Error processing download''), Map.empty, [])"
  by (simp add: handleDownload_def authorize_def isAdmin_def truthy_def serverError_def
      testEnv_def noEventReq_def)

text \<open>
  C5. For an authorized request on an event without registrations, the handler answers
  with status 200 and the body \<open>success: false\<close>, \<open>No one registered yet!\<close>, after the
  registration query alone: the lock records are unchanged, and none is created.
\<close>

theorem no_registrations_response:
  "authorized env req \<Longrightarrow>
     handleDownload x env [] store req =
       ((200, Info False ''No one registered yet!''), store, [RegFind (eventName req)])"
  by (auto simp add: authorized_def handleDownload_def Let_def)

theorem no_registrations_response_witness:
  "authorized testEnv meeraReq
   \<and> handleDownload testExt testEnv [] Map.empty meeraReq =
       ((200, Info False ''No one registered yet!''), Map.empty, [RegFind ''Hackathon''])"
proof -
  have a: "authorized testEnv meeraReq"
    by (simp add: authorized_def authorize_Coordinator_iff isAdmin_iff testEnv_def meeraReq_def
        toUpperCase_hack)
  from no_registrations_response [OF a, of testExt Map.empty] a show ?thesis
    by (simp add: meeraReq_def)
qed


lemma handleDownload_served:
  assumes "authorized env req" and "regs \<noteq> []"
  shows "handleDownload x env regs store req =
     (case ensureLog store (eventName req) of (existingLog, store1, ops1) \<Rightarrow>
      case resolveLock (authorize env req = Admin) store1 req of
        (isFirst, logDetails, store2, ops2) \<Rightarrow>
          (respond x (authorize env req = Admin) isFirst logDetails (eventName req) regs,
           store2, RegFind (eventName req) # ops1 @ ops2))"
  using assms by (auto simp add: authorized_def handleDownload_def Let_def)

text \<open>What the handler does with the lock of a served request, case by case.\<close>

lemma served_admin:
  assumes "authorize env req = Admin" and "regs \<noteq> []"
  shows "\<exists>message ops.
     handleDownload x env regs store req =
       ((200, Payload True message (xlsxBase64 x (buildWorksheet (localeString x) regs))
                (Some (generateCards (eventName req) regs))),
        (case store (eventName req) of
           None \<Rightarrow> store(eventName req \<mapsto> newLock)
         | Some l \<Rightarrow> store),
        ops)
     \<and> (\<forall>ev. LogFindOneAndUpdate ev \<notin> set ops)"
proof -
  from assms have a: "authorized env req" by (simp add: authorized_def)
  show ?thesis
  proof (cases "store (eventName req)")
    case None
    obtain message where "respond x True False (Some newLock) (eventName req) regs =
       (200, Payload True message (xlsxBase64 x (buildWorksheet (localeString x) regs))
               (Some (generateCards (eventName req) regs)))"
      using respond_Some [of x True False newLock "eventName req" regs] by auto
    with None assms show ?thesis
      by (simp add: handleDownload_served [OF a] ensureLog_None resolveLock_admin)
  next
    case (Some l)
    obtain message where "respond x True False (Some l) (eventName req) regs =
       (200, Payload True message (xlsxBase64 x (buildWorksheet (localeString x) regs))
               (Some (generateCards (eventName req) regs)))"
      using respond_Some [of x True False l "eventName req" regs] by auto
    with Some assms show ?thesis
      by (simp add: handleDownload_served [OF a] ensureLog_Some resolveLock_admin)
  qed
qed

lemma served_first:
  assumes "authorize env req = Coordinator" and "regs \<noteq> []"
    and "\<not> claimed store (eventName req)"
  shows "\<exists>message ops.
     handleDownload x env regs store req =
       ((200, Payload True message (xlsxBase64 x (buildWorksheet (localeString x) regs))
                (Some (generateCards (eventName req) regs))),
        store(eventName req \<mapsto> claimBy req (lockState store (eventName req))),
        ops)"
proof -
  from assms have a: "authorized env req" and n: "(authorize env req = Admin) = False"
    by (simp_all add: authorized_def)
  let ?l' = "claimBy req (lockState store (eventName req))"
  obtain message where r: "respond x False True (Some ?l') (eventName req) regs =
       (200, Payload True message (xlsxBase64 x (buildWorksheet (localeString x) regs))
               (Some (generateCards (eventName req) regs)))"
    using respond_Some [of x False True ?l' "eventName req" regs] by auto
  show ?thesis
  proof (cases "store (eventName req)")
    case None
    have "resolveLock False (store(eventName req \<mapsto> newLock)) req =
        (True, Some ?l', store(eventName req \<mapsto> ?l'), [LogFindOneAndUpdate (eventName req)])"
      using resolveLock_first [of "store(eventName req \<mapsto> newLock)" req newLock] None
      by (simp add: newLock_def lockState_def claimBy_def)
    with None r assms(2) show ?thesis
      by (simp add: handleDownload_served [OF a] n ensureLog_None)
  next
    case (Some l)
    with assms(3) have "\<not> vCardsDownloaded l" by (simp add: claimed_def)
    with Some have "resolveLock False store req =
        (True, Some ?l', store(eventName req \<mapsto> ?l'), [LogFindOneAndUpdate (eventName req)])"
      using resolveLock_first [of store req l] by (simp add: lockState_def claimBy_def)
    with Some r assms(2) show ?thesis
      by (simp add: handleDownload_served [OF a] n ensureLog_Some)
  qed
qed

lemma served_late:
  assumes "authorize env req = Coordinator" and "regs \<noteq> []"
    and "claimed store (eventName req)"
  shows "\<exists>message ops.
     handleDownload x env regs store req =
       ((200, Payload True message (xlsxBase64 x (buildWorksheet (localeString x) regs)) None),
        store, ops)"
proof -
  from assms have a: "authorized env req" and n: "(authorize env req = Admin) = False"
    by (simp_all add: authorized_def)
  from assms(3) obtain l where l: "store (eventName req) = Some l" "vCardsDownloaded l"
    by (auto simp add: claimed_def split: option.splits)
  obtain message where "respond x False False (Some l) (eventName req) regs =
       (200, Payload True message (xlsxBase64 x (buildWorksheet (localeString x) regs)) None)"
    using respond_Some [of x False False l "eventName req" regs] by auto
  with l assms(2) show ?thesis
    by (simp add: handleDownload_served [OF a] n ensureLog_Some resolveLock_late)
qed

lemma claimed_claimBy: "claimed (store(ev \<mapsto> claimBy req l)) ev"
  by (simp add: claimed_def claimBy_def)

text \<open>
  C3. An authorized request on an event with at least one registration gets the success
  response with the encoded spreadsheet of the registrations. Its contact-card field is
  not null if and only if the caller is admin or this request moved the event's lock from
  unclaimed to claimed; it is null exactly for a coordinator who finds the lock claimed.
  A contact-card field that is not null holds the cards of the registrations.
\<close>

theorem vcf_iff_admin_or_first:
  assumes "authorized env req" and "regs \<noteq> []"
  shows "\<exists>message vcf store' ops.
     handleDownload x env regs store req =
       ((200, Payload True message (xlsxBase64 x (buildWorksheet (localeString x) regs)) vcf),
        store', ops)
     \<and> (vcf \<noteq> None \<longleftrightarrow>
          authorize env req = Admin
          \<or> (\<not> claimed store (eventName req) \<and> claimed store' (eventName req)))
     \<and> (vcf = None \<longleftrightarrow> authorize env req = Coordinator \<and> claimed store (eventName req))
     \<and> (vcf = None \<or> vcf = Some (generateCards (eventName req) regs))"
proof -
  consider (admin) "authorize env req = Admin"
    | (first) "authorize env req = Coordinator" "\<not> claimed store (eventName req)"
    | (late) "authorize env req = Coordinator" "claimed store (eventName req)"
    using assms(1) by (auto simp add: authorized_def)
  then show ?thesis
  proof cases
    case admin
    from served_admin [OF admin assms(2), of x store] admin show ?thesis
      by auto
  next
    case first
    from served_first [OF first(1) assms(2) first(2), of x] first show ?thesis
      by (auto simp add: claimed_claimBy)
  next
    case late
    from served_late [OF late(1) assms(2) late(2), of x] late show ?thesis
      by auto
  qed
qed


theorem vcf_iff_admin_or_first_witness:
  "authorized testEnv nikhilReq \<and> [internalReg] \<noteq> []
   \<and> authorize testEnv nikhilReq = Coordinator
   \<and> claimed [''Hackathon'' \<mapsto> meerasLock] (eventName nikhilReq)
   \<and> (\<exists>message store' ops.
        handleDownload testExt testEnv [internalReg] [''Hackathon'' \<mapsto> meerasLock] nikhilReq =
          ((200, Payload True message
                   (xlsxBase64 testExt (buildWorksheet (localeString testExt) [internalReg])) None),
           store', ops))"
proof -
  have c: "authorize testEnv nikhilReq = Coordinator"
    by (simp add: authorize_Coordinator_iff isAdmin_iff testEnv_def nikhilReq_def toUpperCase_hack)
  then have a: "authorized testEnv nikhilReq"
    by (simp add: authorized_def)
  have r: "[internalReg] \<noteq> []" by simp
  have l: "claimed [''Hackathon'' \<mapsto> meerasLock] (eventName nikhilReq)"
    by (simp add: claimed_def meerasLock_def nikhilReq_def)
  from vcf_iff_admin_or_first [OF a r, of testExt "[''Hackathon'' \<mapsto> meerasLock]"] c l
  have "\<exists>message store' ops.
        handleDownload testExt testEnv [internalReg] [''Hackathon'' \<mapsto> meerasLock] nikhilReq =
          ((200, Payload True message
                   (xlsxBase64 testExt (buildWorksheet (localeString testExt) [internalReg])) None),
           store', ops)"
    by auto
  with a r c l show ?thesis by simp
qed

lemma lockState_fresh: "store ev = None \<Longrightarrow> lockState (store(ev \<mapsto> newLock)) = lockState store"
  by (rule ext) (simp add: lockState_def)

lemma admin_call:
  assumes "authorize env req = Admin"
    and "handleDownload x env regs store req = (resp, store', ops)"
  shows "lockState store' = lockState store
    \<and> (\<forall>ev l. store ev = Some l \<longrightarrow> store' ev = Some l)
    \<and> (\<forall>ev. LogFindOneAndUpdate ev \<notin> set ops)"
proof (cases "regs = []")
  case True
  with assms show ?thesis
    by (auto simp add: handleDownload_def Let_def)
next
  case False
  from served_admin [OF assms(1) False, of x store] assms(2) show ?thesis
    by (cases "store (eventName req)") (auto simp add: lockState_fresh)
qed

lemma admin_calls:
  assumes "\<forall>c \<in> set calls. authorize env (snd c) = Admin"
  shows "lockState (fst (serveAll x env store calls)) = lockState store
    \<and> (\<forall>ev l. store ev = Some l \<longrightarrow> fst (serveAll x env store calls) ev = Some l)
    \<and> (\<forall>ev. LogFindOneAndUpdate ev \<notin> set (snd (serveAll x env store calls)))"
  using assms
proof (induction calls arbitrary: store)
  case Nil
  show ?case by simp
next
  case (Cons c calls)
  obtain regs req where c: "c = (regs, req)" by (cases c)
  obtain resp store' ops where h: "handleDownload x env regs store req = (resp, store', ops)"
    by (cases "handleDownload x env regs store req")
  from Cons.prems c have "authorize env req = Admin" by simp
  from admin_call [OF this h]
  have 1: "lockState store' = lockState store"
    and 2: "\<forall>ev l. store ev = Some l \<longrightarrow> store' ev = Some l"
    and 3: "\<forall>ev. LogFindOneAndUpdate ev \<notin> set ops"
    by blast+
  from Cons.prems have "\<forall>c \<in> set calls. authorize env (snd c) = Admin" by simp
  from Cons.IH [OF this, of store']
  have 4: "lockState (fst (serveAll x env store' calls)) = lockState store'"
    and 5: "\<forall>ev l. store' ev = Some l \<longrightarrow> fst (serveAll x env store' calls) ev = Some l"
    and 6: "\<forall>ev. LogFindOneAndUpdate ev \<notin> set (snd (serveAll x env store' calls))"
    by blast+
  have s: "serveAll x env store (c # calls) =
      (fst (serveAll x env store' calls), ops @ snd (serveAll x env store' calls))"
    by (simp add: c h split: prod.splits)
  from 1 2 3 4 5 6 show ?case
    unfolding s by simp
qed

text \<open>
  Step 2 runs for an admin as for anyone: an admin request for an event that has
  registrations and no lock record leaves the fresh record behind.
\<close>

lemma admin_creates_missing_record:
  "authorize env req = Admin \<Longrightarrow> regs \<noteq> [] \<Longrightarrow> store (eventName req) = None \<Longrightarrow>
     fst (snd (handleDownload x env regs store req)) = store(eventName req \<mapsto> newLock)"
  using served_admin [of env req regs x store] by auto

text \<open>
  C2. After any number of admin requests, served one after the other for any
  registrations, the lock of every event has the \<open>vCardsDownloaded\<close>,
  \<open>firstDownloaderName\<close> and \<open>downloadTime\<close> it had before, a record that existed is
  unchanged, and the conditional update was never performed. The lock of an event
  without a record is the fresh, unclaimed one: creating that record in step 2 is the one
  change an admin request can make.
\<close>

theorem admin_requests_never_mutate_lock:
  assumes "\<forall>c \<in> set calls. authorize env (snd c) = Admin"
  shows "vCardsDownloaded (lockState (fst (serveAll x env store calls)) ev)
           = vCardsDownloaded (lockState store ev)
    \<and> firstDownloaderName (lockState (fst (serveAll x env store calls)) ev)
           = firstDownloaderName (lockState store ev)
    \<and> downloadTime (lockState (fst (serveAll x env store calls)) ev)
           = downloadTime (lockState store ev)
    \<and> (\<forall>l. store ev = Some l \<longrightarrow> fst (serveAll x env store calls) ev = Some l)
    \<and> LogFindOneAndUpdate ev \<notin> set (snd (serveAll x env store calls))"
  using admin_calls [OF assms, of x store] by simp

theorem admin_requests_never_mutate_lock_witness:
  "authorize testEnv (snd ([internalReg], adminReq)) = Admin
   \<and> fst (serveAll testExt testEnv [''Hackathon'' \<mapsto> meerasLock]
            [([internalReg], adminReq), ([internalReg], adminReq)]) ''Hackathon'' = Some meerasLock
   \<and> vCardsDownloaded (lockState (fst (serveAll testExt testEnv Map.empty
            [([internalReg], adminReq), ([internalReg], adminReq)])) ''Hackathon'') = False"
proof -
  have a: "authorize testEnv adminReq = Admin"
    by (simp add: authorize_Admin_iff isAdmin_iff testEnv_def adminReq_def)
  then have all: "\<forall>c \<in> set [([internalReg], adminReq), ([internalReg], adminReq)].
      authorize testEnv (snd c) = Admin"
    by simp
  from admin_requests_never_mutate_lock [OF all, of testExt "[''Hackathon'' \<mapsto> meerasLock]" "''Hackathon''"]
  have kept: "fst (serveAll testExt testEnv [''Hackathon'' \<mapsto> meerasLock]
            [([internalReg], adminReq), ([internalReg], adminReq)]) ''Hackathon'' = Some meerasLock"
    by simp
  from admin_requests_never_mutate_lock [OF all, of testExt Map.empty "''Hackathon''"]
  have fresh: "vCardsDownloaded (lockState (fst (serveAll testExt testEnv Map.empty
            [([internalReg], adminReq), ([internalReg], adminReq)])) ''Hackathon'') = False"
    by (simp add: lockState_def newLock_def)
  from a kept fresh show ?thesis by simp
qed

subsection \<open>Concurrent requests\<close>

lemma findOneAndUpdate_cases:
  "findOneAndUpdate store ev c t = (r, store') \<Longrightarrow>
     (r = None \<and> store' = store \<and> (store ev = None \<or> claimed store ev))
     \<or> (\<exists>l. store ev = Some l \<and> \<not> vCardsDownloaded l
            \<and> r = Some (l\<lparr>vCardsDownloaded := True, firstDownloaderName := Some c, downloadTime := Some t\<rparr>)
            \<and> store' = store(ev \<mapsto> l\<lparr>vCardsDownloaded := True, firstDownloaderName := Some c, downloadTime := Some t\<rparr>))"
  by (auto simp add: findOneAndUpdate_def claimed_def Let_def split: option.splits if_splits)

lemma pstep_keeps_records:
  "pstep x env req found store p = (store', p') \<Longrightarrow> store ev \<noteq> None \<Longrightarrow> store' ev \<noteq> None"
  by (cases p)
    (auto simp add: create_def findOne_def findOneAndUpdate_def Let_def
      split: role.splits option.splits if_splits sum.splits prod.splits)

lemma pstep_keeps_claimed:
  "pstep x env req found store p = (store', p') \<Longrightarrow> claimed store ev \<Longrightarrow> claimed store' ev"
  by (cases p)
    (auto simp add: create_def findOne_def findOneAndUpdate_def Let_def claimed_def
      split: role.splits option.splits if_splits sum.splits prod.splits)

lemma procOk_mono:
  assumes "procOk env store rp"
    and "\<And>ev. store ev \<noteq> None \<Longrightarrow> store' ev \<noteq> None"
    and "\<And>ev. claimed store ev \<Longrightarrow> claimed store' ev"
  shows "procOk env store' rp"
proof (cases rp)
  case (Pair req p)
  show ?thesis
  proof (cases p)
    case (Finished out resp)
    with Pair assms show ?thesis by (cases out) auto
  qed (use Pair assms in auto)
qed


lemma vcfOf_respond:
  "vcfOf (respond x admin isFirst (Some l) ev regs)
     = (if admin \<or> isFirst then Some (generateCards ev regs) else None)"
  using respond_Some [of x admin isFirst l ev regs] by auto

lemma pstep_procOk:
  assumes ok: "procOk env store (req, p)"
    and step: "pstep x env req found store p = (store', p')"
  shows "procOk env store' (req, p')"
proof (cases p)
  case AtStart
  with step show ?thesis
    by (cases "authorize env req") (auto simp add: authorized_def split: if_splits)
next
  case (AtFindLog admin regs)
  with ok step show ?thesis
    by (auto simp add: findOne_def split: option.splits)
next
  case (AtCreate admin regs)
  with ok step show ?thesis
    by (auto simp add: create_def split: option.splits)
next
  case (AtRefetch admin regs)
  with ok step show ?thesis by auto
next
  case (AtResolve admin regs)
  show ?thesis
  proof (cases admin)
    case True
    with AtResolve ok step show ?thesis
      by (auto simp add: Let_def)
  next
    case False
    with AtResolve ok have coord: "authorize env req = Coordinator"
      and rec: "store (eventName req) \<noteq> None"
      by (auto simp add: authorized_def)
    obtain r s where f: "findOneAndUpdate store (eventName req) (coordinatorName req) (now req) = (r, s)"
      by (cases "findOneAndUpdate store (eventName req) (coordinatorName req) (now req)")
    from findOneAndUpdate_cases [OF f]
    consider (late) "r = None" "s = store" "claimed store (eventName req)"
      | (first) l where "store (eventName req) = Some l" "\<not> vCardsDownloaded l"
          "r = Some (l\<lparr>vCardsDownloaded := True, firstDownloaderName := Some (coordinatorName req),
                          downloadTime := Some (now req)\<rparr>)"
          "s = store(eventName req \<mapsto> l\<lparr>vCardsDownloaded := True,
                          firstDownloaderName := Some (coordinatorName req), downloadTime := Some (now req)\<rparr>)"
      using rec by blast
    then show ?thesis
    proof cases
      case late
      with f AtResolve False step coord show ?thesis
        by (auto simp add: Let_def)
    next
      case first
      with f AtResolve False step coord show ?thesis
        by (auto simp add: Let_def claimed_def vcfOf_respond)
    qed
  qed
next
  case (AtLateRead regs)
  with ok step show ?thesis
    by (auto simp add: Let_def findOne_def claimed_def vcfOf_respond split: option.splits)
next
  case (Finished out resp)
  with ok step show ?thesis by auto
qed

lemma pstep_new_winner:
  assumes "pstep x env req found store p = (store', p')"
    and "isWinner ev (req, p')" and "\<not> isWinner ev (req, p)"
  shows "\<not> claimed store ev"
proof (cases p)
  case (AtResolve admin regs)
  obtain r s where f: "findOneAndUpdate store (eventName req) (coordinatorName req) (now req) = (r, s)"
    by (cases "findOneAndUpdate store (eventName req) (coordinatorName req) (now req)")
  from findOneAndUpdate_cases [OF f] f AtResolve assms show ?thesis
    by (auto simp add: Let_def claimed_def split: if_splits)
next
  case (Finished out resp)
  with assms show ?thesis by auto
qed (use assms in \<open>auto simp add: Let_def split: role.splits if_splits option.splits sum.splits prod.splits\<close>)

lemma winner_claimed: "procOk env store rp \<Longrightarrow> isWinner ev rp \<Longrightarrow> claimed store ev"
proof (cases rp)
  case (Pair req p)
  assume "procOk env store rp" "isWinner ev rp"
  with Pair show ?thesis
  proof (cases p)
    case (Finished out resp)
    with Pair \<open>procOk env store rp\<close> \<open>isWinner ev rp\<close> show ?thesis
      by (cases out) auto
  qed auto
qed


lemma sysInv_init: "sysInv env reqs (store0, map (\<lambda>r. (r, AtStart)) reqs)"
  by (auto simp add: sysInv_def comp_def)

lemma sysInv_step:
  assumes inv: "sysInv env reqs s" and step: "sysStep x env label s s'"
  shows "sysInv env reqs s'"
proof -
  from step obtain i ps req p found store store' p'
    where s: "s = (store, ps)" and s': "s' = (store', ps[i := (req, p')])"
      and i: "i < length ps" and at: "ps ! i = (req, p)"
      and ps: "pstep x env req found store p = (store', p')"
    by cases
  from inv s have reqs: "map fst ps = reqs"
    and ok: "\<And>rp. rp \<in> set ps \<Longrightarrow> procOk env store rp"
    and uniq: "\<And>ev a b. a < length ps \<Longrightarrow> b < length ps \<Longrightarrow> isWinner ev (ps ! a)
                 \<Longrightarrow> isWinner ev (ps ! b) \<Longrightarrow> a = b"
    by (auto simp add: sysInv_def)
  from i at have here: "(req, p) \<in> set ps"
    by (metis nth_mem)
  have ok': "procOk env store' rp" if "rp \<in> set ps" for rp
    using ok [OF that] pstep_keeps_records [OF ps] pstep_keeps_claimed [OF ps]
    by (rule procOk_mono)
  have new: "procOk env store' (req, p')"
    using ok [OF here] ps by (rule pstep_procOk)
  have 1: "map fst (ps[i := (req, p')]) = reqs"
    using reqs i at by (simp add: map_update) (metis fst_conv list_update_id nth_map length_map)
  have 2: "procOk env store' rp" if "rp \<in> set (ps[i := (req, p')])" for rp
  proof -
    from that set_update_subset_insert [of ps i "(req, p')"]
    have "rp = (req, p') \<or> rp \<in> set ps" by blast
    with ok' new show ?thesis by blast
  qed
  have other: "\<not> isWinner ev (req, p')" if "b < length ps" "b \<noteq> i" "isWinner ev (ps ! b)" for ev b
  proof
    assume w: "isWinner ev (req, p')"
    from that have "claimed store ev"
      using winner_claimed [OF ok, of "ps ! b" ev] by simp
    with pstep_new_winner [OF ps w] have "isWinner ev (ps ! i)"
      using at by auto
    with uniq [OF that(1) i that(3)] that(2) show False by simp
  qed
  have 3: "a = b" if "a < length ps" "b < length ps"
      "isWinner ev (ps[i := (req, p')] ! a)" "isWinner ev (ps[i := (req, p')] ! b)" for ev a b
  proof (cases "a = i")
    case ai: True
    show ?thesis
    proof (cases "b = i")
      case True
      with ai show ?thesis by simp
    next
      case False
      with that i ai other [of b ev] show ?thesis by simp
    qed
  next
    case ai: False
    show ?thesis
    proof (cases "b = i")
      case True
      with that i ai other [of a ev] show ?thesis by simp
    next
      case False
      with that ai uniq [of a b ev] show ?thesis by simp
    qed
  qed
  from 1 2 3 show ?thesis
    unfolding s' sysInv_def by simp blast
qed

lemma reachable_sysInv: "reachable x env store0 reqs s \<Longrightarrow> sysInv env reqs s"
  by (induction rule: reachable.induct) (auto intro: sysInv_init sysInv_step)


lemma reachable_claimed_mono:
  "reachable x env store0 reqs s \<Longrightarrow> claimed store0 ev \<Longrightarrow> claimed (fst s) ev"
proof (induction rule: reachable.induct)
  case init
  then show ?case by simp
next
  case (advance s label s')
  from advance.hyps(2) advance.IH [OF advance.prems] show ?case
    by cases (auto dest: pstep_keeps_claimed)
qed

lemma reachable_no_winner:
  "reachable x env store0 reqs s \<Longrightarrow> claimed store0 ev \<Longrightarrow> i < length (snd s)
     \<Longrightarrow> \<not> isWinner ev (snd s ! i)"
proof (induction arbitrary: i rule: reachable.induct)
  case init
  then show ?case by simp
next
  case (advance s label s')
  from advance.hyps(2) obtain k ps req p found store store' p'
    where s: "s = (store, ps)" and s': "s' = (store', ps[k := (req, p')])"
      and k: "k < length ps" and at: "ps ! k = (req, p)"
      and ps: "pstep x env req found store p = (store', p')"
    by cases
  from reachable_claimed_mono [OF advance.hyps(1) advance.prems(1)] s
  have c: "claimed store ev" by simp
  show ?case
  proof (cases "i = k")
    case True
    from advance.IH [OF advance.prems(1), of k] k s at have "\<not> isWinner ev (req, p)"
      by simp
    with pstep_new_winner [OF ps, of ev] c have "\<not> isWinner ev (req, p')"
      by blast
    with True k s' show ?thesis by simp
  next
    case False
    with advance.IH [OF advance.prems(1), of i] advance.prems(2) s s' show ?thesis
      by simp
  qed
qed

lemma sysRun_reachable:
  "reachable x env store0 reqs s \<Longrightarrow> reachable x env store0 reqs (sysRun x env sched s)"
proof (induction sched arbitrary: s)
  case Nil
  then show ?case by simp
next
  case (Cons c sched)
  obtain i found where c: "c = (i, found)" by (cases c)
  obtain store ps where s: "s = (store, ps)" by (cases s)
  show ?case
  proof (cases "i < length ps")
    case False
    with Cons c s show ?thesis by simp
  next
    case True
    obtain req p where at: "ps ! i = (req, p)" by (cases "ps ! i")
    obtain store' p' where ps: "pstep x env req found store p = (store', p')"
      by (cases "pstep x env req found store p")
    from True at ps have "sysStep x env (i, found) (store, ps) (store', ps[i := (req, p')])"
      by (rule sysStep.step)
    with Cons.prems s have "reachable x env store0 reqs (store', ps[i := (req, p')])"
      by (auto intro: reachable.advance)
    from Cons.IH [OF this] True at ps c s show ?thesis by simp
  qed
qed

text \<open>
  C1. Take any number of requests, admin or not, for any events, and any interleaving of
  their database operations, each of them atomic, from any lock records. For every event
  at most one request sees its claim succeed; that request is a coordinator's, the event
  was unclaimed at the start and is claimed now, the record the request wrote names its
  coordinator, and its response carries contact cards. Every other coordinator's request that
  is served to the end, whether it ran concurrently with the winner or after it, read a
  record with \<open>vCardsDownloaded = true\<close> and got a response without contact cards.
\<close>

theorem one_first_download_per_event:
  assumes "reachable x env store0 reqs (store, ps)"
  shows "map fst ps = reqs
    \<and> (\<forall>i < length ps. \<forall>j < length ps.
          isWinner ev (ps ! i) \<and> isWinner ev (ps ! j) \<longrightarrow> i = j)
    \<and> (\<forall>i < length ps. isWinner ev (ps ! i) \<longrightarrow>
          authorize env (fst (ps ! i)) = Coordinator \<and> claimed store ev \<and> \<not> claimed store0 ev)
    \<and> (\<forall>i < length ps. \<forall>out resp.
          snd (ps ! i) = Finished out resp \<and> authorize env (fst (ps ! i)) = Coordinator
          \<and> out \<noteq> NoRegistrations
          \<longrightarrow> isWinner (eventName (fst (ps ! i))) (ps ! i) \<or> isLate (ps ! i))
    \<and> (\<forall>i < length ps. \<forall>l resp.
          snd (ps ! i) = Finished (ClaimedFirst l) resp
          \<longrightarrow> vcfOf resp \<noteq> None \<and> firstDownloaderName l = Some (coordinatorName (fst (ps ! i))))"
proof -
  from reachable_sysInv [OF assms] have reqs: "map fst ps = reqs"
    and ok: "\<And>i. i < length ps \<Longrightarrow> procOk env store (ps ! i)"
    and uniq: "\<forall>i < length ps. \<forall>j < length ps.
          isWinner ev (ps ! i) \<and> isWinner ev (ps ! j) \<longrightarrow> i = j"
    by (simp_all add: sysInv_def)
  have won: "authorize env (fst (ps ! i)) = Coordinator \<and> claimed store ev \<and> \<not> claimed store0 ev"
    if lt: "i < length ps" and w: "isWinner ev (ps ! i)" for i
  proof -
    obtain req p where rp: "ps ! i = (req, p)" by (cases "ps ! i")
    with w obtain l resp where "p = Finished (ClaimedFirst l) resp"
      by (cases "(ev, req, p)" rule: isWinner.cases) auto
    with ok [OF lt] rp have 1: "authorize env (fst (ps ! i)) = Coordinator"
      by simp
    from reachable_no_winner [OF assms, of ev i] lt w have 2: "\<not> claimed store0 ev"
      by auto
    from ok [OF lt] w have 3: "claimed store ev"
      by (rule winner_claimed)
    from 1 2 3 show ?thesis by simp
  qed
  have served: "isWinner (eventName (fst (ps ! i))) (ps ! i) \<or> isLate (ps ! i)"
    if lt: "i < length ps" and fin: "snd (ps ! i) = Finished out resp"
      and co: "authorize env (fst (ps ! i)) = Coordinator" and reg: "out \<noteq> NoRegistrations"
    for i out resp
  proof -
    obtain req where rp: "ps ! i = (req, Finished out resp)"
      using fin by (cases "ps ! i") simp
    with ok [OF lt] co reg show ?thesis
      by (cases out) (auto simp add: authorized_def)
  qed
  have first: "vcfOf resp \<noteq> None \<and> firstDownloaderName l = Some (coordinatorName (fst (ps ! i)))"
    if lt: "i < length ps" and fin: "snd (ps ! i) = Finished (ClaimedFirst l) resp" for i l resp
  proof -
    obtain req where rp: "ps ! i = (req, Finished (ClaimedFirst l) resp)"
      using fin by (cases "ps ! i") simp
    with ok [OF lt] show ?thesis by simp
  qed
  from reqs uniq won served first show ?thesis by blast
qed


lemma coordinators:
  "authorize testEnv meeraReq = Coordinator" "authorize testEnv nikhilReq = Coordinator"
  by (simp_all add: authorize_Coordinator_iff isAdmin_iff testEnv_def meeraReq_def nikhilReq_def
      toUpperCase_hack)

lemma race_fields:
  "eventName meeraReq = ''Hackathon''" "eventName nikhilReq = ''Hackathon''"
  "coordinatorName nikhilReq = ''Nikhil''" "now nikhilReq = 200"
  "coordinatorName meeraReq = ''Meera''" "now meeraReq = 100"
  by (simp_all add: meeraReq_def nikhilReq_def)

lemma race_run:
  "sysRun testExt testEnv raceSchedule (Map.empty, [(meeraReq, AtStart), (nikhilReq, AtStart)]) =
     ([''Hackathon'' \<mapsto> nikhilsLock],
      [(meeraReq, Finished (ClaimedLate (Some nikhilsLock))
                    (respond testExt False False (Some nikhilsLock) ''Hackathon'' [internalReg])),
       (nikhilReq, Finished (ClaimedFirst nikhilsLock)
                    (respond testExt False True (Some nikhilsLock) ''Hackathon'' [internalReg]))])"
  by (simp add: raceSchedule_def coordinators race_fields findOne_def create_def
      findOneAndUpdate_def newLock_def nikhilsLock_def Let_def)

theorem one_first_download_per_event_witness:
  "reachable testExt testEnv Map.empty [meeraReq, nikhilReq]
     (sysRun testExt testEnv raceSchedule (Map.empty, [(meeraReq, AtStart), (nikhilReq, AtStart)]))
   \<and> isWinner ''Hackathon''
        (snd (sysRun testExt testEnv raceSchedule
                (Map.empty, [(meeraReq, AtStart), (nikhilReq, AtStart)])) ! 1)
   \<and> \<not> isWinner ''Hackathon''
        (snd (sysRun testExt testEnv raceSchedule
                (Map.empty, [(meeraReq, AtStart), (nikhilReq, AtStart)])) ! 0)
   \<and> isLate
        (snd (sysRun testExt testEnv raceSchedule
                (Map.empty, [(meeraReq, AtStart), (nikhilReq, AtStart)])) ! 0)
   \<and> claimed
        (fst (sysRun testExt testEnv raceSchedule
                (Map.empty, [(meeraReq, AtStart), (nikhilReq, AtStart)]))) ''Hackathon''"
proof -
  let ?late = "(meeraReq, Finished (ClaimedLate (Some nikhilsLock))
                    (respond testExt False False (Some nikhilsLock) ''Hackathon'' [internalReg]))"
  let ?first = "(nikhilReq, Finished (ClaimedFirst nikhilsLock)
                    (respond testExt False True (Some nikhilsLock) ''Hackathon'' [internalReg]))"
  have "reachable testExt testEnv Map.empty [meeraReq, nikhilReq]
          (Map.empty, map (\<lambda>r. (r, AtStart)) [meeraReq, nikhilReq])"
    by (rule reachable.init)
  from sysRun_reachable [OF this, of raceSchedule]
  have reach: "reachable testExt testEnv Map.empty [meeraReq, nikhilReq]
                 ([''Hackathon'' \<mapsto> nikhilsLock], [?late, ?first])"
    by (simp add: race_run)
  have winner: "isWinner ''Hackathon'' ([?late, ?first] ! 1)"
    by (simp add: race_fields)
  from one_first_download_per_event [OF reach, of "''Hackathon''"]
  have uniq: "\<forall>i < length [?late, ?first]. \<forall>j < length [?late, ?first].
          isWinner ''Hackathon'' ([?late, ?first] ! i) \<and> isWinner ''Hackathon'' ([?late, ?first] ! j)
            \<longrightarrow> i = j"
    and taken: "\<forall>i < length [?late, ?first]. isWinner ''Hackathon'' ([?late, ?first] ! i) \<longrightarrow>
          authorize testEnv (fst ([?late, ?first] ! i)) = Coordinator
          \<and> claimed [''Hackathon'' \<mapsto> nikhilsLock] ''Hackathon'' \<and> \<not> claimed Map.empty ''Hackathon''"
    and served: "\<forall>i < length [?late, ?first]. \<forall>out resp.
          snd ([?late, ?first] ! i) = Finished out resp
          \<and> authorize testEnv (fst ([?late, ?first] ! i)) = Coordinator \<and> out \<noteq> NoRegistrations
          \<longrightarrow> isWinner (eventName (fst ([?late, ?first] ! i))) ([?late, ?first] ! i)
              \<or> isLate ([?late, ?first] ! i)"
    by blast+
  from uniq winner have loser: "\<not> isWinner ''Hackathon'' ([?late, ?first] ! 0)"
    by (metis length_Cons list.size(3) One_nat_def lessI zero_less_Suc zero_neq_one)
  from served [rule_format, of 0] loser have late: "isLate ([?late, ?first] ! 0)"
    by (simp add: coordinators race_fields)
  from taken winner have "claimed [''Hackathon'' \<mapsto> nikhilsLock] ''Hackathon''"
    by (metis length_Cons list.size(3) One_nat_def lessI)
  with reach winner loser late show ?thesis
    by (simp only: race_run fst_conv snd_conv) simp
qed


text \<open>
  A request is at its response after at most six of its own steps, whatever the other
  requests do in between; run alone, it does what the handler does.
\<close>

lemma pstep_progress: "remaining (snd (pstep x env req found store p)) \<le> remaining p - 1"
  by (cases p)
    (auto simp add: Let_def split: role.splits option.splits sum.splits prod.splits)

lemma handleDownload_run_alone:
  "\<exists>out. sysRun x env [(0, regs), (0, regs), (0, regs), (0, regs), (0, regs), (0, regs)]
            (store, [(req, AtStart)])
     = (fst (snd (handleDownload x env regs store req)),
        [(req, Finished out (fst (handleDownload x env regs store req)))])"
proof (cases "authorize env req")
  case Admin
  then show ?thesis
    by (cases "store (eventName req)")
      (simp_all add: handleDownload_def ensureLog_def resolveLock_def findOne_def create_def Let_def)
next
  case Coordinator
  show ?thesis
  proof (cases "store (eventName req)")
    case None
    with Coordinator show ?thesis
      by (simp add: handleDownload_def ensureLog_def resolveLock_def findOne_def create_def
          findOneAndUpdate_def newLock_def Let_def)
  next
    case (Some l)
    with Coordinator show ?thesis
      by (cases "vCardsDownloaded l")
        (simp_all add: handleDownload_def ensureLog_def resolveLock_def findOne_def create_def
          findOneAndUpdate_def Let_def)
  qed
next
  case Denied
  then show ?thesis by (simp add: handleDownload_def)
next
  case TypeError
  then show ?thesis by (simp add: handleDownload_def)
qed

end
